theory Spec2Isabelle
  imports Complex_Main
begin

section \<open>Python values and list operations\<close>

text \<open>
  The exceptions the transformation code can raise at run time.  Every indexing of a
  list and every dictionary lookup of the source is a branch of the model.
\<close>

datatype py_error = IndexError | KeyError

text \<open>\<^verbatim>\<open>xs[i]\<close>: a negative index counts from the end; out of range raises.\<close>

definition py_index :: "'a list \<Rightarrow> int \<Rightarrow> py_error + 'a" where
  "py_index xs i =
     (if 0 \<le> i \<and> i < int (length xs) then Inr (xs ! nat i)
      else if i < 0 \<and> - int (length xs) \<le> i then Inr (xs ! nat (int (length xs) + i))
      else Inl IndexError)"

text \<open>\<^verbatim>\<open>xs[i:j]\<close>: both bounds are shifted when negative and clipped to the list; never raises.\<close>

definition py_bound :: "nat \<Rightarrow> int \<Rightarrow> nat" where
  "py_bound n i = (if i < 0 then nat (int n + i) else min (nat i) n)"

definition py_slice :: "'a list \<Rightarrow> int \<Rightarrow> int \<Rightarrow> 'a list" where
  "py_slice xs i j = take (py_bound (length xs) j - py_bound (length xs) i) (drop (py_bound (length xs) i) xs)"

text \<open>\<^verbatim>\<open>[v] * k\<close> and \<^verbatim>\<open>[v for _ in range(0, k)]\<close> with \<open>v\<close> already evaluated: \<open>k\<close> copies, none when \<open>k \<le> 0\<close>.\<close>

definition py_repeat :: "'a \<Rightarrow> int \<Rightarrow> 'a list" where
  "py_repeat v k = replicate (nat k) v"

text \<open>\<^verbatim>\<open>range(a, b)\<close>.\<close>

definition py_range :: "int \<Rightarrow> int \<Rightarrow> int list" where
  "py_range a b = [a..b - 1]"

text \<open>\<^verbatim>\<open>for x in xs: body\<close> where the body may raise: the first exception ends the loop.\<close>

fun for_each :: "('b \<Rightarrow> 's \<Rightarrow> py_error + 's) \<Rightarrow> 'b list \<Rightarrow> 's \<Rightarrow> py_error + 's" where
  "for_each body [] s = Inr s"
| "for_each body (x # xs) s =
     (case body x s of Inl e \<Rightarrow> Inl e | Inr s' \<Rightarrow> for_each body xs s')"

section \<open>The channel-keyed sequence (FrameworkData)\<close>

text \<open>
  Modelled from the spec: the class \<^verbatim>\<open>FrameworkData\<close> (models/framework_data.py) is not
  among the source files.  The spec describes it as a sampling frequency (a number, maybe
  absent) and a mapping from channel identifier to an ordered sequence of elements, created
  empty, populated by appending per channel.  The operations the three nodes call are
  modelled after that description:
  \<^item> \<^verbatim>\<open>FrameworkData(sampling_frequency_hz=f)\<close>: no channel yet;
  \<^item> \<^verbatim>\<open>FrameworkData.from_multi_channel(f, channels, [])\<close>: every listed channel present and empty;
  \<^item> \<^verbatim>\<open>input_data_on_channel(xs, c)\<close>: extends the sequence of channel \<open>c\<close> by the list \<open>xs\<close>,
    creating the channel when it is new;
  \<^item> \<^verbatim>\<open>get_data_count()\<close>: the element count of the container, read off its first channel
    (all channels have the same count in a rectangular container), 0 without channels;
  \<^item> \<^verbatim>\<open>get_channels_as_set()\<close>: the channel identifiers, each once; Python leaves the order
    in which a set is traversed open, and the model traverses in the order of the list, the
    channels being processed independently of one another;
  \<^item> \<^verbatim>\<open>_data[c]\<close>, \<^verbatim>\<open>get_data_on_channel(c)\<close>: the sequence of channel \<open>c\<close>, \<^verbatim>\<open>KeyError\<close> when absent.
\<close>

type_synonym channel = string

record 'a framework_data =
  sampling_frequency :: "real option"
  channels :: "channel list"
  fdata :: "channel \<rightharpoonup> 'a list"

definition new_framework_data :: "real option \<Rightarrow> 'a framework_data" where
  "new_framework_data f = \<lparr>sampling_frequency = f, channels = [], fdata = Map.empty\<rparr>"

definition from_multi_channel :: "real \<Rightarrow> channel list \<Rightarrow> 'a framework_data" where
  "from_multi_channel f chans =
     \<lparr>sampling_frequency = Some f, channels = chans,
      fdata = (\<lambda>c. if c \<in> set chans then Some [] else None)\<rparr>"

definition channel_or_empty :: "'a framework_data \<Rightarrow> channel \<Rightarrow> 'a list" where
  "channel_or_empty d c = (case fdata d c of None \<Rightarrow> [] | Some xs \<Rightarrow> xs)"

definition input_data_on_channel :: "'a list \<Rightarrow> channel \<Rightarrow> 'a framework_data \<Rightarrow> 'a framework_data" where
  "input_data_on_channel xs c d =
     d\<lparr>channels := (if c \<in> set (channels d) then channels d else channels d @ [c]),
       fdata := (fdata d)(c \<mapsto> channel_or_empty d c @ xs)\<rparr>"

definition get_data_on_channel :: "'a framework_data \<Rightarrow> channel \<Rightarrow> py_error + 'a list" where
  "get_data_on_channel d c = (case fdata d c of None \<Rightarrow> Inl KeyError | Some xs \<Rightarrow> Inr xs)"

definition get_data_count :: "'a framework_data \<Rightarrow> int" where
  "get_data_count d =
     (case channels d of [] \<Rightarrow> 0 | c # _ \<Rightarrow> int (length (channel_or_empty d c)))"

definition get_channels_as_set :: "'a framework_data \<Rightarrow> channel list" where
  "get_channels_as_set d = remdups (channels d)"

text \<open>
  The shape the spec requires of a container taking part in a processing step: every
  listed channel is present, no channel is listed twice, and all channels hold \<open>n\<close> elements.
\<close>

definition rectangular :: "'a framework_data \<Rightarrow> nat \<Rightarrow> bool" where
  "rectangular d n \<longleftrightarrow>
     distinct (channels d) \<and>
     list_all (\<lambda>c. case fdata d c of None \<Rightarrow> False | Some xs \<Rightarrow> length xs = n) (channels d)"

text \<open>Whether channel \<open>c\<close> is a key of the container.\<close>

definition has_channel :: "'a framework_data \<Rightarrow> channel \<Rightarrow> bool" where
  "has_channel d c \<longleftrightarrow> fdata d c \<noteq> None"

text \<open>
  The part of the shape that does not concern the counts: no channel is listed twice and
  every listed channel is a key.
\<close>

definition channels_present :: "'a framework_data \<Rightarrow> bool" where
  "channels_present d \<longleftrightarrow> distinct (channels d) \<and> list_all (has_channel d) (channels d)"

text \<open>The input and output of \<^verbatim>\<open>_process\<close>: a dictionary from port name to container.\<close>

type_synonym 'a ports = "string \<rightharpoonup> 'a framework_data"

section \<open>DataReplicate\<close>

text \<open>
  The fields set by \<^verbatim>\<open>_initialize_parameter_fields\<close>.  \<^verbatim>\<open>extra_data\<close> is only set, and only
  read, when \<^verbatim>\<open>use_extra_data\<close> is true.
\<close>

record data_replicate =
  data_repetition_count :: int
  use_extra_data :: bool
  extra_data :: int

text \<open>
  The body of \<^verbatim>\<open>for channel in channels\<close> of \<^verbatim>\<open>DataReplicate._process\<close>.  The list
  comprehension \<^verbatim>\<open>[channel_elements[-1] for _ in range(0, self.extra_data)]\<close> evaluates
  \<^verbatim>\<open>channel_elements[-1]\<close> once per iteration, so not at all when \<^verbatim>\<open>extra_data\<close> is not positive.
\<close>

definition replicate_channel ::
  "data_replicate \<Rightarrow> 'a framework_data \<Rightarrow> channel \<Rightarrow> 'a framework_data \<Rightarrow> py_error + 'a framework_data"
where
  "replicate_channel node main channel processed_data =
     (case get_data_on_channel main channel of
        Inl e \<Rightarrow> Inl e
      | Inr channel_elements \<Rightarrow>
          (let replicated =
                 fold (\<lambda>element p. input_data_on_channel (py_repeat element (data_repetition_count node)) channel p)
                   channel_elements processed_data
           in if use_extra_data node then
                (if 0 < extra_data node then
                   (case py_index channel_elements (- 1) of
                      Inl e \<Rightarrow> Inl e
                    | Inr v \<Rightarrow> Inr (input_data_on_channel (py_repeat v (extra_data node)) channel replicated))
                 else Inr (input_data_on_channel [] channel replicated))
              else Inr replicated))"

definition DataReplicate_process :: "data_replicate \<Rightarrow> 'a ports \<Rightarrow> py_error + 'a ports" where
  "DataReplicate_process node data =
     (case data ''main'' of
        None \<Rightarrow> Inl KeyError
      | Some main \<Rightarrow>
          (case for_each (replicate_channel node main) (channels main)
                  (from_multi_channel 1 (channels main)) of
             Inl e \<Rightarrow> Inl e
           | Inr processed_data \<Rightarrow> Inr [''main'' \<mapsto> processed_data]))"

text \<open>
  What one channel of the output holds, in closed form: each sample repeated, in order,
  then the tail extension.  Used to state the lemmas below.
\<close>

definition replicated_channel :: "data_replicate \<Rightarrow> 'a list \<Rightarrow> 'a list" where
  "replicated_channel node xs = concat (map (\<lambda>x. replicate (nat (data_repetition_count node)) x) xs) @
      (if use_extra_data node then replicate (nat (extra_data node)) (last xs) else [])"

section \<open>Parameter validation\<close>

text \<open>
  A parameter set is the dictionary read from the configuration: each key, when present,
  holds an integer, a boolean, a string or a value of some other type.  Python's
  \<^verbatim>\<open>type(v) is not int\<close> holds of every value that is not an integer, booleans included.
\<close>

datatype param_value = PInt int | PBool bool | PStr string | POther

type_synonym parameters = "string \<rightharpoonup> param_value"

text \<open>
  The two exceptions of validation.  \<^verbatim>\<open>MissingParameterError(module, name, parameter)\<close> is in
  the source; \<^verbatim>\<open>InvalidParameterValue\<close> is raised with the keywords module, name, parameter
  and cause.
\<close>

datatype param_error =
    MissingParameterError string string string
  | InvalidParameterValue string string string string

definition SlidingWindowSegmenter_MODULE_NAME :: string where
  "SlidingWindowSegmenter_MODULE_NAME = ''node.processing.segmenter.slidingwindowsegmenter''"

definition Interpolate_MODULE_NAME :: string where
  "Interpolate_MODULE_NAME = ''node.processing.interpolate''"

text \<open>
  \<^verbatim>\<open>SlidingWindowSegmenter._validate_parameters\<close>.  It first calls the validation of its parent
  class \<^verbatim>\<open>Segmenter\<close>, which is not among the source files and is taken as the parameter
  \<open>super_validate\<close>.  \<open>name\<close> is the node's \<^verbatim>\<open>self.name\<close>.  The checks follow in the order
  of the source: the three keys, then type and domain of each value.
\<close>

definition SlidingWindowSegmenter_validate_parameters ::
  "(parameters \<Rightarrow> param_error + unit) \<Rightarrow> string \<Rightarrow> parameters \<Rightarrow> param_error + unit"
where
  "SlidingWindowSegmenter_validate_parameters super_validate name parameters =
     (case super_validate parameters of
        Inl e \<Rightarrow> Inl e
      | Inr _ \<Rightarrow>
     (case parameters ''window_size'' of
        None \<Rightarrow> Inl (MissingParameterError SlidingWindowSegmenter_MODULE_NAME name ''window_size'')
      | Some window_size \<Rightarrow>
     (case parameters ''filling_value'' of
        None \<Rightarrow> Inl (MissingParameterError SlidingWindowSegmenter_MODULE_NAME name ''filling_value'')
      | Some filling_value \<Rightarrow>
     (case parameters ''step_size'' of
        None \<Rightarrow> Inl (MissingParameterError SlidingWindowSegmenter_MODULE_NAME name ''step_size'')
      | Some step_size \<Rightarrow>
     (case window_size of
        PInt w \<Rightarrow>
          if w < 1 then
            Inl (InvalidParameterValue SlidingWindowSegmenter_MODULE_NAME name
                   ''window_size'' ''must_be_greater_than_0'')
          else
            (case filling_value of
               PStr f \<Rightarrow>
                 if f \<notin> set [''zero'', ''latest''] then
                   Inl (InvalidParameterValue SlidingWindowSegmenter_MODULE_NAME name
                          ''filling_value'' ''must_be_in.[zero, latest]'')
                 else
                   (case step_size of
                      PInt s \<Rightarrow>
                        if s < 1 \<or> s \<ge> w then
                          Inl (InvalidParameterValue SlidingWindowSegmenter_MODULE_NAME name
                                 ''step_size'' ''must_be_greater_than_0_and_smaller_than_window_size'')
                        else Inr ()
                    | _ \<Rightarrow>
                        Inl (InvalidParameterValue SlidingWindowSegmenter_MODULE_NAME name
                               ''step_size'' ''must_be_int''))
             | _ \<Rightarrow>
                 Inl (InvalidParameterValue SlidingWindowSegmenter_MODULE_NAME name
                        ''filling_value'' ''must_be_str''))
      | _ \<Rightarrow>
          Inl (InvalidParameterValue SlidingWindowSegmenter_MODULE_NAME name
                 ''window_size'' ''must_be_int''))))))"

text \<open>
  \<^verbatim>\<open>Interpolate._validate_parameters\<close>: \<^verbatim>\<open>window_size\<close>, then \<^verbatim>\<open>sliding_window\<close>, then, only
  when \<^verbatim>\<open>sliding_window\<close> is true, \<^verbatim>\<open>step_size\<close>.
\<close>

definition Interpolate_validate_parameters :: "string \<Rightarrow> parameters \<Rightarrow> param_error + unit" where
  "Interpolate_validate_parameters name parameters =
     (case parameters ''window_size'' of
        None \<Rightarrow> Inl (MissingParameterError Interpolate_MODULE_NAME name ''window_size'')
      | Some (PInt w) \<Rightarrow>
          if w \<le> 1 then
            Inl (InvalidParameterValue Interpolate_MODULE_NAME name
                   ''window_size'' ''must_be_greater_than_0'')
          else
            (case parameters ''sliding_window'' of
               None \<Rightarrow> Inl (MissingParameterError Interpolate_MODULE_NAME name ''sliding_window'')
             | Some (PBool sliding_window) \<Rightarrow>
                 if sliding_window = True then
                   (case parameters ''step_size'' of
                      None \<Rightarrow> Inl (MissingParameterError Interpolate_MODULE_NAME name ''step_size'')
                    | Some (PInt s) \<Rightarrow>
                        if s \<le> 1 \<or> s \<ge> w then
                          Inl (InvalidParameterValue Interpolate_MODULE_NAME name
                                 ''step_size'' ''invalid_value'')
                        else Inr ()
                    | Some _ \<Rightarrow>
                        Inl (InvalidParameterValue Interpolate_MODULE_NAME name
                               ''step_size'' ''must_be_int''))
                 else Inr ()
             | Some _ \<Rightarrow>
                 Inl (InvalidParameterValue Interpolate_MODULE_NAME name
                        ''sliding_window'' ''must_be_bool''))
      | Some _ \<Rightarrow>
          Inl (InvalidParameterValue Interpolate_MODULE_NAME name ''window_size'' ''must_be_int''))"

section \<open>Sliding-window segmenter\<close>

text \<open>
  The fields set by \<^verbatim>\<open>SlidingWindowSegmenter.__init__\<close> from the validated parameters.  The
  segmenter and Interpolate both have fields \<^verbatim>\<open>window_size\<close> and \<^verbatim>\<open>step_size\<close>; the prefixes
  \<open>seg_\<close> and \<open>ip_\<close> keep the two records apart.
\<close>

record sliding_window_segmenter =
  seg_window_size :: int
  seg_filling_value :: string
  seg_step_size :: int

text \<open>
  The body of the \<^verbatim>\<open>while\<close> loop of \<^verbatim>\<open>segment_data\<close> before the index advances: every
  channel receives the slice \<^verbatim>\<open>[index : index + window_size]\<close> as one element.
\<close>

definition segment_window ::
  "sliding_window_segmenter \<Rightarrow> 'a framework_data \<Rightarrow> channel list \<Rightarrow> int \<Rightarrow>
   'a list framework_data \<Rightarrow> py_error + 'a list framework_data"
where
  "segment_window node data chans index segmented_data =
     for_each
       (\<lambda>channel out.
          case get_data_on_channel data channel of
            Inl e \<Rightarrow> Inl e
          | Inr xs \<Rightarrow>
              Inr (input_data_on_channel [py_slice xs index (index + seg_window_size node)] channel out))
       chans segmented_data"

text \<open>
  The loop \<^verbatim>\<open>while (index + self.window_size) < data_count\<close>.  With a step that is not
  positive it may run forever, so it lives in the option monad: \<open>None\<close> is "does not return".
  It returns the final index with the container.
\<close>

partial_function (option) segment_while ::
  "sliding_window_segmenter \<Rightarrow> 'a framework_data \<Rightarrow> channel list \<Rightarrow> int \<Rightarrow> int \<Rightarrow>
   'a list framework_data \<Rightarrow> (py_error + int \<times> 'a list framework_data) option"
where
  "segment_while node data chans data_count index segmented_data =
     (if index + seg_window_size node < data_count then
        (case segment_window node data chans index segmented_data of
           Inl e \<Rightarrow> Some (Inl e)
         | Inr segmented_data' \<Rightarrow>
             segment_while node data chans data_count (index + seg_step_size node) segmented_data')
      else Some (Inr (index, segmented_data)))"

text \<open>
  The body of the loop over the channels after \<^verbatim>\<open>if remaining_data != 0\<close>.  Under
  \<^verbatim>\<open>latest\<close> the sample \<^verbatim>\<open>data._data[channel][data_count - 1]\<close> is put in a list before the list
  is multiplied, so it is read even when no filling is needed.
\<close>

definition segment_tail ::
  "sliding_window_segmenter \<Rightarrow> 'a::zero framework_data \<Rightarrow> int \<Rightarrow> int \<Rightarrow> int \<Rightarrow> channel \<Rightarrow>
   'a list framework_data \<Rightarrow> py_error + 'a list framework_data"
where
  "segment_tail node data data_count index remaining_data channel segmented_data =
     (case
        (if seg_filling_value node = ''zero'' then
           Inr (py_repeat 0 (seg_window_size node - remaining_data))
         else if seg_filling_value node = ''latest'' then
           (case get_data_on_channel data channel of
              Inl e \<Rightarrow> Inl e
            | Inr xs \<Rightarrow>
                (case py_index xs (data_count - 1) of
                   Inl e \<Rightarrow> Inl e
                 | Inr v \<Rightarrow> Inr (py_repeat v (seg_window_size node - remaining_data))))
         else Inr [])
      of
        Inl e \<Rightarrow> Inl e
      | Inr filling_vector \<Rightarrow>
          (case get_data_on_channel data channel of
             Inl e \<Rightarrow> Inl e
           | Inr xs \<Rightarrow>
               Inr (input_data_on_channel [py_slice xs index data_count @ filling_vector]
                      channel segmented_data)))"

text \<open>\<^verbatim>\<open>SlidingWindowSegmenter.segment_data\<close>.\<close>

definition segment_data ::
  "sliding_window_segmenter \<Rightarrow> 'a::zero framework_data \<Rightarrow> (py_error + 'a list framework_data) option"
where
  "segment_data node data =
     (let segmented_data = new_framework_data (sampling_frequency data);
          data_count = get_data_count data;
          chans = get_channels_as_set data
      in case segment_while node data chans data_count 0 segmented_data of
           None \<Rightarrow> None
         | Some (Inl e) \<Rightarrow> Some (Inl e)
         | Some (Inr (index, segmented_data')) \<Rightarrow>
             (let remaining_data = data_count - index
              in if remaining_data \<noteq> 0 then
                   Some (for_each (segment_tail node data data_count index remaining_data)
                           chans segmented_data')
                 else Some (Inr segmented_data')))"

section \<open>Interpolate\<close>

text \<open>
  The fields set by \<^verbatim>\<open>Interpolate._initialize_parameter_fields\<close>.  \<^verbatim>\<open>step_size\<close> is only set,
  and only read, when \<^verbatim>\<open>sliding_window\<close> is true.
\<close>

record interpolate =
  ip_window_size :: int
  ip_sliding_window :: bool
  ip_step_size :: int

text \<open>\<^verbatim>\<open>data[self.INPUT_MAIN]._data[channel][window]\<close>.\<close>

definition window_value :: "'a framework_data \<Rightarrow> channel \<Rightarrow> int \<Rightarrow> py_error + 'a" where
  "window_value main channel window =
     (case get_data_on_channel main channel of
        Inl e \<Rightarrow> Inl e
      | Inr xs \<Rightarrow> py_index xs window)"

text \<open>
  Non-sliding mode, the body of \<^verbatim>\<open>for channel in channels\<close>: one block per window.  The
  comprehension reads the window's value once per copy, so not at all when \<^verbatim>\<open>window_size\<close> is
  not positive.
\<close>

definition interpolate_channel ::
  "interpolate \<Rightarrow> 'a framework_data \<Rightarrow> channel \<Rightarrow> 'a framework_data \<Rightarrow> py_error + 'a framework_data"
where
  "interpolate_channel node main channel processed_data =
     for_each
       (\<lambda>window p.
          if 0 < ip_window_size node then
            (case window_value main channel window of
               Inl e \<Rightarrow> Inl e
             | Inr v \<Rightarrow> Inr (input_data_on_channel (py_repeat v (ip_window_size node)) channel p))
          else Inr (input_data_on_channel [] channel p))
       (py_range 0 (get_data_count main)) processed_data"

text \<open>
  Sliding mode.  \<^verbatim>\<open>merged_data[index].append(v)\<close>: the slot is looked up first, then the
  value; the slot list grows in place.
\<close>

definition py_position :: "nat \<Rightarrow> int \<Rightarrow> nat" where
  "py_position n i = (if i < 0 then nat (int n + i) else nat i)"

definition append_to_slot ::
  "'a framework_data \<Rightarrow> channel \<Rightarrow> int \<Rightarrow> int \<Rightarrow> 'a list list \<Rightarrow> py_error + 'a list list"
where
  "append_to_slot main channel window index merged_data =
     (case py_index merged_data index of
        Inl e \<Rightarrow> Inl e
      | Inr slot \<Rightarrow>
          (case window_value main channel window of
             Inl e \<Rightarrow> Inl e
           | Inr v \<Rightarrow> Inr (merged_data[py_position (length merged_data) index := slot @ [v] ])))"

text \<open>\<^verbatim>\<open>merged_data.append([v])\<close>.\<close>

definition append_slot ::
  "'a framework_data \<Rightarrow> channel \<Rightarrow> int \<Rightarrow> int \<Rightarrow> 'a list list \<Rightarrow> py_error + 'a list list"
where
  "append_slot main channel window index merged_data =
     (case window_value main channel window of
        Inl e \<Rightarrow> Inl e
      | Inr v \<Rightarrow> Inr (merged_data @ [ [v] ]))"

text \<open>The loop \<^verbatim>\<open>while window < windows_count\<close>; \<^verbatim>\<open>window\<close> grows by one each round.\<close>

function interpolate_while ::
  "interpolate \<Rightarrow> 'a framework_data \<Rightarrow> channel \<Rightarrow> int \<Rightarrow> int \<Rightarrow> int \<Rightarrow> int \<Rightarrow> 'a list list \<Rightarrow>
   py_error + 'a list list"
where
  "interpolate_while node main channel windows_count intersection_lenght window window_end_index merged_data =
     (if window < windows_count then
        (case for_each (append_to_slot main channel window)
                (py_range (window_end_index - intersection_lenght) window_end_index) merged_data of
           Inl e \<Rightarrow> Inl e
         | Inr merged_data' \<Rightarrow>
             (case for_each (append_slot main channel window)
                     (py_range 0 (ip_step_size node)) merged_data' of
                Inl e \<Rightarrow> Inl e
              | Inr merged_data'' \<Rightarrow>
                  interpolate_while node main channel windows_count intersection_lenght
                    (window + 1) (window_end_index + ip_step_size node) merged_data''))
      else Inr merged_data)"
  by pat_completeness auto
termination
  by (relation "measure (\<lambda>(node, main, channel, windows_count, intersection_lenght, window, rest).
                           nat (windows_count - window))") auto

text \<open>
  The resolution of one slot: \<^verbatim>\<open>[max(slot)]\<close> when \<^verbatim>\<open>len(slot) > 1\<close>, that is when the slot
  holds two candidates or more, and the slot as it is otherwise.  \<^verbatim>\<open>max\<close> of a list that is
  not empty is its first element folded with the rest.
\<close>

fun resolve_slot :: "'a::linorder list \<Rightarrow> 'a list" where
  "resolve_slot (x # y # slot) = [fold max (y # slot) x]"
| "resolve_slot slot = slot"

text \<open>Sliding mode, the body of \<^verbatim>\<open>for channel in channels\<close>.\<close>

definition interpolate_sliding_channel ::
  "interpolate \<Rightarrow> 'a::linorder framework_data \<Rightarrow> int \<Rightarrow> int \<Rightarrow> channel \<Rightarrow> 'a framework_data \<Rightarrow>
   py_error + 'a framework_data"
where
  "interpolate_sliding_channel node main windows_count intersection_lenght channel processed_data =
     (case for_each (append_slot main channel 0) (py_range 0 (ip_window_size node)) [] of
        Inl e \<Rightarrow> Inl e
      | Inr merged_data \<Rightarrow>
          (case interpolate_while node main channel windows_count intersection_lenght
                  1 (ip_window_size node) merged_data of
             Inl e \<Rightarrow> Inl e
           | Inr merged_data' \<Rightarrow>
               Inr (fold (\<lambda>index p. input_data_on_channel (resolve_slot (merged_data' ! index)) channel p)
                      [0..<length merged_data'] processed_data)))"

text \<open>\<^verbatim>\<open>Interpolate._process\<close>.\<close>

definition Interpolate_process :: "interpolate \<Rightarrow> 'a::linorder ports \<Rightarrow> py_error + 'a ports" where
  "Interpolate_process node data =
     (case data ''main'' of
        None \<Rightarrow> Inl KeyError
      | Some main \<Rightarrow>
          (let chans = get_channels_as_set main;
               processed_data = from_multi_channel 1 chans
           in case
                (if ip_sliding_window node = True then
                   (let windows_count = get_data_count main;
                        intersection_lenght = ip_window_size node - ip_step_size node
                    in for_each (interpolate_sliding_channel node main windows_count intersection_lenght)
                         chans processed_data)
                 else for_each (interpolate_channel node main) chans processed_data)
              of
                Inl e \<Rightarrow> Inl e
              | Inr processed_data' \<Rightarrow> Inr [''main'' \<mapsto> processed_data']))"

section \<open>Auxiliary notions for the proofs\<close>

text \<open>
  The indices at which the \<^verbatim>\<open>while\<close> loop of \<^verbatim>\<open>segment_data\<close> emits a window when it is entered
  at \<open>index\<close> with a positive step: a terminating trace of the loop, used to state its
  invariant.
\<close>

function loop_indices :: "int \<Rightarrow> int \<Rightarrow> int \<Rightarrow> int \<Rightarrow> int list" where
  "loop_indices ws step data_count index =
     (if 0 < step \<and> index + ws < data_count
      then index # loop_indices ws step data_count (index + step)
      else [])"
  by pat_completeness auto
termination
  by (relation "measure (\<lambda>(ws, step, data_count, index). nat (data_count - ws - index))") auto

text \<open>
  The filling vector \<^verbatim>\<open>segment_data\<close> builds for a channel \<open>xs\<close> that is not empty, in closed
  form.
\<close>

definition filling :: "sliding_window_segmenter \<Rightarrow> 'a::zero list \<Rightarrow> int \<Rightarrow> 'a list" where
  "filling node xs remaining =
     (if seg_filling_value node = ''zero'' then replicate (nat (seg_window_size node - remaining)) 0
      else if seg_filling_value node = ''latest''
        then replicate (nat (seg_window_size node - remaining)) (last xs)
      else [])"

text \<open>The number of rounds of the \<^verbatim>\<open>while\<close> loop of \<^verbatim>\<open>segment_data\<close> on \<open>n\<close> samples.\<close>

definition loop_rounds :: "sliding_window_segmenter \<Rightarrow> nat \<Rightarrow> nat" where
  "loop_rounds node n =
     length (loop_indices (seg_window_size node) (seg_step_size node) (int n) 0)"

text \<open>
  The candidate list of output slot \<open>j\<close> after the first \<open>k\<close> epochs have been merged, for a
  window of \<open>n\<close> samples and a step of \<open>s\<close>: epoch \<open>w\<close> covers the slots
  \<open>w * s, \<dots>, w * s + n - 1\<close>, and the candidates of a slot are the values of the epochs covering
  it, in epoch order.  \<open>merged_slots\<close> is the whole of \<^verbatim>\<open>merged_data\<close> at that moment.  Both
  state the invariant of the loop of the sliding mode.
\<close>

definition candidates :: "nat \<Rightarrow> nat \<Rightarrow> 'a list \<Rightarrow> nat \<Rightarrow> nat \<Rightarrow> 'a list" where
  "candidates n s xs k j = map ((!) xs) (filter (\<lambda>w. w * s \<le> j \<and> j < w * s + n) [0..<k])"

definition merged_slots :: "nat \<Rightarrow> nat \<Rightarrow> 'a list \<Rightarrow> nat \<Rightarrow> 'a list list" where
  "merged_slots n s xs k = map (candidates n s xs k) [0..<n + (k - 1) * s]"

section \<open>Properties of the container operations\<close>

lemma input_data_on_channel_fdata:
  "fdata (input_data_on_channel xs c d) c' =
     (if c' = c then Some (channel_or_empty d c @ xs) else fdata d c')"
  by (simp add: input_data_on_channel_def)

lemma input_data_on_channel_frequency:
  "sampling_frequency (input_data_on_channel xs c d) = sampling_frequency d"
  by (simp add: input_data_on_channel_def)

lemma channel_or_empty_input:
  "channel_or_empty (input_data_on_channel xs c d) c' =
     (if c' = c then channel_or_empty d c @ xs else channel_or_empty d c')"
  by (simp add: channel_or_empty_def input_data_on_channel_fdata)

lemma rectangular_lookup:
  assumes "rectangular d n" and "c \<in> set (channels d)"
  obtains xs where "fdata d c = Some xs" and "length xs = n"
  using assms by (auto simp: rectangular_def list_all_iff split: option.splits)

lemma has_channel_input:
  "has_channel (input_data_on_channel xs c d) c' \<longleftrightarrow> c' = c \<or> has_channel d c'"
  by (simp add: has_channel_def input_data_on_channel_fdata)

section \<open>Loops over the channels\<close>

text \<open>
  A loop over distinct channels whose body appends \<open>F c\<close> to channel \<open>c\<close> of the container
  under construction, and touches nothing else, appends \<open>F c\<close> to every channel of the list.
\<close>

lemma for_each_channels:
  assumes "distinct chans"
    and step: "\<And>c p. c \<in> set chans \<Longrightarrow>
       \<exists>p'. body c p = Inr p' \<and> sampling_frequency p' = sampling_frequency p \<and>
            (creates \<longrightarrow> has_channel p' c) \<and>
            (\<forall>c'. channel_or_empty p' c' = (if c' = c then channel_or_empty p c @ F c else channel_or_empty p c')) \<and>
            (\<forall>c'. has_channel p c' \<longrightarrow> has_channel p' c')"
  shows "\<exists>p'. for_each body chans p = Inr p' \<and> sampling_frequency p' = sampling_frequency p \<and>
            (\<forall>c'. channel_or_empty p' c' = (if c' \<in> set chans then channel_or_empty p c' @ F c' else channel_or_empty p c')) \<and>
            (\<forall>c'. has_channel p c' \<longrightarrow> has_channel p' c') \<and>
            (creates \<longrightarrow> (\<forall>c'\<in>set chans. has_channel p' c'))"
  using assms
proof (induction chans arbitrary: p)
  case Nil
  then show ?case by simp
next
  case (Cons c cs)
  from Cons.prems(2)[of c p] obtain q where q: "body c p = Inr q"
    "sampling_frequency q = sampling_frequency p" "creates \<longrightarrow> has_channel q c"
    "\<forall>c'. channel_or_empty q c' = (if c' = c then channel_or_empty p c @ F c else channel_or_empty p c')"
    "\<forall>c'. has_channel p c' \<longrightarrow> has_channel q c'"
    by auto
  have d: "distinct cs" "c \<notin> set cs" using Cons.prems(1) by auto
  from Cons.IH[OF d(1), of q] Cons.prems(2) obtain r where r: "for_each body cs q = Inr r"
    "sampling_frequency r = sampling_frequency q"
    "\<forall>c'. channel_or_empty r c' = (if c' \<in> set cs then channel_or_empty q c' @ F c' else channel_or_empty q c')"
    "\<forall>c'. has_channel q c' \<longrightarrow> has_channel r c'"
    "creates \<longrightarrow> (\<forall>c'\<in>set cs. has_channel r c')"
    by auto
  show ?case using q r d by auto
qed

lemma fold_input_channel:
  "channel_or_empty (fold (\<lambda>e p. input_data_on_channel (G e) c p) es p) c' =
     (if c' = c then channel_or_empty p c @ concat (map G es) else channel_or_empty p c')"
  by (induction es arbitrary: p) (auto simp: channel_or_empty_input)

lemma fold_input_frequency:
  "sampling_frequency (fold (\<lambda>e p. input_data_on_channel (G e) c p) es p) = sampling_frequency p"
  by (induction es arbitrary: p) (auto simp: input_data_on_channel_frequency)

lemma fold_input_present:
  "has_channel p c' \<Longrightarrow> has_channel (fold (\<lambda>e p. input_data_on_channel (G e) c p) es p) c'"
  by (induction es arbitrary: p) (auto simp: has_channel_input)

section \<open>DataReplicate: the loop body and the whole process\<close>

lemma py_index_last: "xs \<noteq> [] \<Longrightarrow> py_index xs (- 1) = Inr (last xs)"
  by (cases xs rule: rev_cases) (auto simp: py_index_def nth_append)

lemma py_index_last_empty: "py_index [] (- 1) = Inl IndexError"
  by (simp add: py_index_def)

lemma replicate_channel_ok:
  assumes "fdata main c = Some xs" "use_extra_data node \<and> 0 < extra_data node \<longrightarrow> xs \<noteq> []"
  shows "\<exists>p'. replicate_channel node main c p = Inr p' \<and> sampling_frequency p' = sampling_frequency p \<and>
            (False \<longrightarrow> has_channel p' c) \<and>
            (\<forall>c'. channel_or_empty p' c' = (if c' = c then channel_or_empty p c @ replicated_channel node xs else channel_or_empty p c')) \<and>
            (\<forall>c'. has_channel p c' \<longrightarrow> has_channel p' c')"
  using assms
  by (auto simp: replicate_channel_def get_data_on_channel_def Let_def py_index_last
      channel_or_empty_input fold_input_channel fold_input_frequency input_data_on_channel_frequency
      has_channel_input fold_input_present replicated_channel_def py_repeat_def)

lemma from_multi_channel_simps:
  "has_channel (from_multi_channel f chans) c \<longleftrightarrow> c \<in> set chans"
  "channel_or_empty (from_multi_channel f chans) c = []"
  "sampling_frequency (from_multi_channel f chans) = Some f"
  by (simp_all add: from_multi_channel_def has_channel_def channel_or_empty_def)

lemma has_channel_fdata:
  "has_channel d c \<Longrightarrow> fdata d c = Some (channel_or_empty d c)"
  by (auto simp: has_channel_def channel_or_empty_def)

lemma rectangular_present: "rectangular d n \<Longrightarrow> channels_present d"
  by (auto simp: rectangular_def channels_present_def list_all_iff has_channel_def split: option.splits)

lemma DataReplicate_process_result:
  assumes main: "data ''main'' = Some main"
    and wf: "channels_present main"
    and nonempty: "use_extra_data node \<and> 0 < extra_data node \<longrightarrow>
                     (\<forall>c\<in>set (channels main). channel_or_empty main c \<noteq> [])"
  shows "\<exists>out. DataReplicate_process node data = Inr [''main'' \<mapsto> out] \<and>
           sampling_frequency out = Some 1 \<and>
           (\<forall>c\<in>set (channels main).
              fdata out c = Some (replicated_channel node (channel_or_empty main c)))"
proof -
  let ?p = "from_multi_channel 1 (channels main) :: 'a framework_data"
  have d: "distinct (channels main)" using wf by (simp add: channels_present_def)
  have step: "\<exists>p'. replicate_channel node main c p = Inr p' \<and>
            sampling_frequency p' = sampling_frequency p \<and> (False \<longrightarrow> has_channel p' c) \<and>
            (\<forall>c'. channel_or_empty p' c' =
               (if c' = c then channel_or_empty p c @ replicated_channel node (channel_or_empty main c)
                else channel_or_empty p c')) \<and>
            (\<forall>c'. has_channel p c' \<longrightarrow> has_channel p' c')"
    if "c \<in> set (channels main)" for c and p :: "'a framework_data"
  proof -
    have "has_channel main c" using wf that by (simp add: channels_present_def list_all_iff)
    then have "fdata main c = Some (channel_or_empty main c)" by (rule has_channel_fdata)
    moreover have "use_extra_data node \<and> 0 < extra_data node \<longrightarrow> channel_or_empty main c \<noteq> []"
      using nonempty that by blast
    ultimately show ?thesis by (rule replicate_channel_ok)
  qed
  from for_each_channels[of "channels main" "replicate_channel node main" False
      "\<lambda>c. replicated_channel node (channel_or_empty main c)" ?p, OF d step]
  obtain out where out: "for_each (replicate_channel node main) (channels main) ?p = Inr out"
    "sampling_frequency out = sampling_frequency ?p"
    "\<forall>c'. channel_or_empty out c' =
       (if c' \<in> set (channels main)
        then channel_or_empty ?p c' @ replicated_channel node (channel_or_empty main c')
        else channel_or_empty ?p c')"
    "\<forall>c'. has_channel ?p c' \<longrightarrow> has_channel out c'"
    by blast
  have "fdata out c = Some (replicated_channel node (channel_or_empty main c))"
    if "c \<in> set (channels main)" for c
    using out(3,4) that has_channel_fdata[of out c] by (simp add: from_multi_channel_simps)
  then show ?thesis
    using out(1,2) main
    by (intro exI[of _ out]) (simp add: DataReplicate_process_def from_multi_channel_simps)
qed

lemma concat_replicate_length:
  "length (concat (map (replicate n) xs)) = length xs * n"
  by (induction xs) auto

lemma concat_replicate_nth:
  "i < length xs * n \<Longrightarrow> concat (map (replicate n) xs) ! i = xs ! (i div n)"
proof (induction xs arbitrary: i)
  case Nil
  then show ?case by simp
next
  case (Cons x xs)
  show ?case
  proof (cases "i < n")
    case True
    then show ?thesis by (simp add: nth_append)
  next
    case False
    then have "i - n < length xs * n" using Cons.prems by simp
    moreover have "0 < n" using Cons.prems by (cases n) auto
    then have "i div n = Suc ((i - n) div n)" using False by (simp add: le_div_geq)
    ultimately show ?thesis using Cons.IH[of "i - n"] False
      by (simp add: nth_append)
  qed
qed

lemma for_each_fails:
  assumes "\<exists>c\<in>set chans. bad c"
    and "\<And>c p. c \<in> set chans \<Longrightarrow> bad c \<Longrightarrow> body c p = Inl e"
    and "\<And>c p. c \<in> set chans \<Longrightarrow> \<not> bad c \<Longrightarrow> \<exists>p'. body c p = Inr p'"
  shows "for_each body chans p = Inl e"
  using assms
proof (induction chans arbitrary: p)
  case Nil
  then show ?case by simp
next
  case (Cons c cs)
  show ?case
  proof (cases "bad c")
    case True
    then show ?thesis using Cons.prems(2)[of c p] by simp
  next
    case False
    then obtain q where q: "body c p = Inr q" using Cons.prems(3)[of c p] by auto
    have "\<exists>c\<in>set cs. bad c" using Cons.prems(1) False by auto
    from Cons.IH[OF this, of q] Cons.prems(2,3) have "for_each body cs q = Inl e" by auto
    then show ?thesis using q by simp
  qed
qed

lemma replicate_channel_fails:
  assumes "fdata main c = Some []" "use_extra_data node" "0 < extra_data node"
  shows "replicate_channel node main c p = Inl IndexError"
  using assms by (simp add: replicate_channel_def get_data_on_channel_def py_index_last_empty)

section \<open>Interpolate, non-sliding mode\<close>

lemma for_each_Inr:
  assumes "\<And>x s. x \<in> set xs \<Longrightarrow> body x s = Inr (g x s)"
  shows "for_each body xs s = Inr (fold g xs s)"
  using assms by (induction xs arbitrary: s) auto

lemma upto_from_0: "[0..int n - 1] = map int [0..<n]"
proof (induction n)
  case 0
  then show ?case by simp
next
  case (Suc n)
  have "[0..int (Suc n) - 1] = [0..int n - 1] @ [int n]"
    using upto_rec2[of 0 "int n"] by simp
  then show ?case using Suc by simp
qed

lemma py_range_from_0: "py_range 0 (int n) = map int [0..<n]"
  by (simp add: py_range_def upto_from_0)

lemma py_index_nat: "i < length xs \<Longrightarrow> py_index xs (int i) = Inr (xs ! i)"
  by (simp add: py_index_def)

lemma get_channels_as_set_distinct:
  "distinct (channels d) \<Longrightarrow> get_channels_as_set d = channels d"
  by (simp add: get_channels_as_set_def)

lemma rectangular_data_count:
  assumes "rectangular d n" and "c \<in> set (channels d)"
  shows "get_data_count d = int n"
proof -
  from assms(2) obtain c0 cs where cs: "channels d = c0 # cs" by (cases "channels d") auto
  then have "c0 \<in> set (channels d)" by simp
  with assms(1) obtain xs where "fdata d c0 = Some xs" "length xs = n"
    by (auto elim: rectangular_lookup)
  then show ?thesis using cs by (simp add: get_data_count_def channel_or_empty_def)
qed

lemma window_value_nat:
  "fdata main c = Some xs \<Longrightarrow> w < length xs \<Longrightarrow> window_value main c (int w) = Inr (xs ! w)"
  by (simp add: window_value_def get_data_on_channel_def py_index_nat)

lemma map_nth_int:
  "map ((\<lambda>w. f (xs ! nat w)) \<circ> int) [0..<length xs] = map f xs"
  by (rule nth_equalityI) auto

lemma interpolate_channel_ok:
  assumes "fdata main c = Some xs" and "get_data_count main = int (length xs)"
  shows "\<exists>p'. interpolate_channel node main c p = Inr p' \<and>
            sampling_frequency p' = sampling_frequency p \<and>
            (False \<longrightarrow> has_channel p' c) \<and>
            (\<forall>c'. channel_or_empty p' c' =
               (if c' = c then channel_or_empty p c @ concat (map (replicate (nat (ip_window_size node))) xs)
                else channel_or_empty p c')) \<and>
            (\<forall>c'. has_channel p c' \<longrightarrow> has_channel p' c')"
proof -
  let ?G = "\<lambda>w. replicate (nat (ip_window_size node)) (xs ! nat w)"
  let ?body = "\<lambda>window p.
          if 0 < ip_window_size node then
            (case window_value main c window of
               Inl e \<Rightarrow> Inl e
             | Inr v \<Rightarrow> Inr (input_data_on_channel (py_repeat v (ip_window_size node)) c p))
          else Inr (input_data_on_channel [] c p)"
  have body: "?body w q = Inr (input_data_on_channel (?G w) c q)"
    if "w \<in> set (map int [0..<length xs])" for w q
  proof -
    from that obtain k where k: "w = int k" "k < length xs" by auto
    show ?thesis using window_value_nat[OF assms(1) k(2)] k(1) by (simp add: py_repeat_def)
  qed
  have run: "interpolate_channel node main c p =
      Inr (fold (\<lambda>w q. input_data_on_channel (?G w) c q) (map int [0..<length xs]) p)"
    unfolding interpolate_channel_def assms(2) py_range_from_0
    by (rule for_each_Inr) (rule body)
  show ?thesis
    unfolding run
    by (intro exI[of _ "fold (\<lambda>w q. input_data_on_channel (?G w) c q) (map int [0..<length xs]) p"])
       (simp add: fold_input_frequency fold_input_channel fold_input_present map_nth_int)
qed

lemma channel_or_empty_Some: "fdata d c = Some xs \<Longrightarrow> channel_or_empty d c = xs"
  by (simp add: channel_or_empty_def)

lemma Interpolate_process_result:
  fixes main :: "'a::linorder framework_data"
  assumes main: "data ''main'' = Some main"
    and wf: "channels_present main"
    and step: "\<And>c p. c \<in> set (channels main) \<Longrightarrow>
       \<exists>p'. (if ip_sliding_window node
             then interpolate_sliding_channel node main (get_data_count main)
                    (ip_window_size node - ip_step_size node)
             else interpolate_channel node main) c p = Inr p' \<and>
            sampling_frequency p' = sampling_frequency p \<and>
            (False \<longrightarrow> has_channel p' c) \<and>
            (\<forall>c'. channel_or_empty p' c' =
               (if c' = c then channel_or_empty p c @ F c else channel_or_empty p c')) \<and>
            (\<forall>c'. has_channel p c' \<longrightarrow> has_channel p' c')"
  shows "\<exists>out. Interpolate_process node data = Inr [''main'' \<mapsto> out] \<and>
           sampling_frequency out = Some 1 \<and>
           (\<forall>c\<in>set (channels main). fdata out c = Some (F c))"
proof -
  let ?p = "from_multi_channel 1 (channels main) :: 'a framework_data"
  let ?body = "if ip_sliding_window node
             then interpolate_sliding_channel node main (get_data_count main)
                    (ip_window_size node - ip_step_size node)
             else interpolate_channel node main"
  have d: "distinct (channels main)" using wf by (simp add: channels_present_def)
  from for_each_channels[of "channels main" ?body False F ?p, OF d step]
  obtain out where out: "for_each ?body (channels main) ?p = Inr out"
    "sampling_frequency out = sampling_frequency ?p"
    "\<forall>c'. channel_or_empty out c' =
       (if c' \<in> set (channels main) then channel_or_empty ?p c' @ F c' else channel_or_empty ?p c')"
    "\<forall>c'. has_channel ?p c' \<longrightarrow> has_channel out c'"
    by blast
  have "fdata out c = Some (F c)" if "c \<in> set (channels main)" for c
    using out(3,4) that has_channel_fdata[of out c] by (simp add: from_multi_channel_simps)
  moreover have "Interpolate_process node data = Inr [''main'' \<mapsto> out]"
    using out(1) main d
    by (cases "ip_sliding_window node")
       (simp_all add: Interpolate_process_def get_channels_as_set_distinct)
  ultimately show ?thesis
    using out(2) by (intro exI[of _ out]) (simp add: from_multi_channel_simps)
qed

section \<open>Sliding-window segmenter: the loop and the tail\<close>

text \<open>
  The loop returns for every positive step; it emits the slices at \<open>loop_indices\<close> and stops at
  the first index that fails the strict test.
\<close>

declare loop_indices.simps [simp del]

lemma py_slice_nat:
  "0 \<le> i \<Longrightarrow> i \<le> j \<Longrightarrow> py_slice xs i j = take (nat j - nat i) (drop (nat i) xs)"
  by (auto simp: py_slice_def py_bound_def min_def)

lemma loop_indices_closed:
  assumes "0 < step"
  shows "\<exists>K. loop_indices ws step N index = map (\<lambda>k. index + int k * step) [0..<K] \<and>
             (\<forall>k<K. index + int k * step + ws < N) \<and>
             \<not> (index + int K * step + ws < N)"
  using assms
proof (induction ws step N index rule: loop_indices.induct)
  case (1 ws step N index)
  show ?case
  proof (cases "index + ws < N")
    case False
    then have "loop_indices ws step N index = []" by (simp add: loop_indices.simps)
    then show ?thesis using False by (intro exI[of _ 0]) simp
  next
    case True
    from "1.IH" True "1.prems" obtain K where K:
      "loop_indices ws step N (index + step) = map (\<lambda>k. index + step + int k * step) [0..<K]"
      "\<forall>k<K. index + step + int k * step + ws < N"
      "\<not> (index + step + int K * step + ws < N)"
      by auto
    have unfold: "loop_indices ws step N index = index # loop_indices ws step N (index + step)"
      using True "1.prems" by (subst loop_indices.simps) simp
    have "map (\<lambda>k. index + int k * step) [0..<Suc K] =
          index # map (\<lambda>k. index + step + int k * step) [0..<K]"
      by (simp only: map_upt_Suc) (simp add: algebra_simps)
    moreover have "\<forall>k<Suc K. index + int k * step + ws < N"
    proof (intro allI impI)
      fix k assume "k < Suc K"
      show "index + int k * step + ws < N"
      proof (cases k)
        case 0
        then show ?thesis using True by simp
      next
        case (Suc j)
        then have "j < K" using \<open>k < Suc K\<close> by simp
        with K(2) have "index + step + int j * step + ws < N" by blast
        then show ?thesis using Suc by (simp add: algebra_simps)
      qed
    qed
    moreover have "\<not> (index + int (Suc K) * step + ws < N)"
      using K(3) by (simp add: algebra_simps)
    ultimately show ?thesis
      using unfold K(1) by (intro exI[of _ "Suc K"]) (simp del: upt_Suc)
  qed
qed

lemma segment_window_ok:
  fixes data :: "'a framework_data"
  assumes "distinct chans" and "\<forall>c\<in>set chans. has_channel data c"
  shows "\<exists>p'. segment_window node data chans index p = Inr p' \<and>
            sampling_frequency p' = sampling_frequency p \<and>
            (\<forall>c'. channel_or_empty p' c' =
               (if c' \<in> set chans
                then channel_or_empty p c' @
                     [py_slice (channel_or_empty data c') index (index + seg_window_size node)]
                else channel_or_empty p c')) \<and>
            (\<forall>c'. has_channel p c' \<longrightarrow> has_channel p' c') \<and>
            (True \<longrightarrow> (\<forall>c'\<in>set chans. has_channel p' c'))"
  unfolding segment_window_def
proof (rule for_each_channels[OF assms(1)])
  fix c and q :: "'a list framework_data"
  assume "c \<in> set chans"
  then have "fdata data c = Some (channel_or_empty data c)"
    using assms(2) by (simp add: has_channel_fdata)
  then show "\<exists>p'. (case get_data_on_channel data c of
              Inl e \<Rightarrow> Inl e
            | Inr xs \<Rightarrow>
                Inr (input_data_on_channel [py_slice xs index (index + seg_window_size node)] c q)) = Inr p' \<and>
            sampling_frequency p' = sampling_frequency q \<and>
            (True \<longrightarrow> has_channel p' c) \<and>
            (\<forall>c'. channel_or_empty p' c' =
               (if c' = c
                then channel_or_empty q c @
                     [py_slice (channel_or_empty data c) index (index + seg_window_size node)]
                else channel_or_empty q c')) \<and>
            (\<forall>c'. has_channel q c' \<longrightarrow> has_channel p' c')"
    by (simp add: get_data_on_channel_def input_data_on_channel_frequency has_channel_input
        channel_or_empty_input)
qed

lemma segment_while_result:
  fixes data :: "'a framework_data"
  assumes "0 < seg_step_size node" and "distinct chans" and "\<forall>c\<in>set chans. has_channel data c"
  shows "\<exists>out. segment_while node data chans N index p =
              Some (Inr (index + seg_step_size node *
                           int (length (loop_indices (seg_window_size node) (seg_step_size node) N index)), out)) \<and>
            sampling_frequency out = sampling_frequency p \<and>
            (\<forall>c. channel_or_empty out c =
               (if c \<in> set chans
                then channel_or_empty p c @
                     map (\<lambda>i. py_slice (channel_or_empty data c) i (i + seg_window_size node))
                       (loop_indices (seg_window_size node) (seg_step_size node) N index)
                else channel_or_empty p c)) \<and>
            (\<forall>c. has_channel p c \<longrightarrow> has_channel out c)"
  using assms
proof (induction "seg_window_size node" "seg_step_size node" N index arbitrary: p
    rule: loop_indices.induct)
  case (1 N index)
  let ?ws = "seg_window_size node" and ?step = "seg_step_size node"
  show ?case
  proof (cases "index + ?ws < N")
    case False
    then have "loop_indices ?ws ?step N index = []" by (simp add: loop_indices.simps)
    moreover have "segment_while node data chans N index p = Some (Inr (index, p))"
      using False by (subst segment_while.simps) simp
    ultimately show ?thesis by simp
  next
    case True
    have unfold: "loop_indices ?ws ?step N index = index # loop_indices ?ws ?step N (index + ?step)"
      using True "1.prems"(1) by (subst loop_indices.simps) simp
    from segment_window_ok[OF "1.prems"(2,3), of node index p]
    obtain q where q: "segment_window node data chans index p = Inr q"
      "sampling_frequency q = sampling_frequency p"
      "\<forall>c'. channel_or_empty q c' =
               (if c' \<in> set chans
                then channel_or_empty p c' @ [py_slice (channel_or_empty data c') index (index + ?ws)]
                else channel_or_empty p c')"
      "\<forall>c'. has_channel p c' \<longrightarrow> has_channel q c'"
      by blast
    from "1.hyps"[of q] True "1.prems"
    obtain out where out: "segment_while node data chans N (index + ?step) q =
              Some (Inr (index + ?step + ?step *
                           int (length (loop_indices ?ws ?step N (index + ?step))), out))"
      "sampling_frequency out = sampling_frequency q"
      "\<forall>c. channel_or_empty out c =
               (if c \<in> set chans
                then channel_or_empty q c @
                     map (\<lambda>i. py_slice (channel_or_empty data c) i (i + ?ws))
                       (loop_indices ?ws ?step N (index + ?step))
                else channel_or_empty q c)"
      "\<forall>c. has_channel q c \<longrightarrow> has_channel out c"
      by auto
    have "segment_while node data chans N index p =
            segment_while node data chans N (index + ?step) q"
      using True q(1) by (subst segment_while.simps) simp
    then show ?thesis
      using out q(2,3,4) unfolding unfold
      by (intro exI[of _ out]) (simp add: algebra_simps)
  qed
qed

lemma py_index_final:
  "xs \<noteq> [] \<Longrightarrow> py_index xs (int (length xs) - 1) = Inr (last xs)"
  by (cases xs rule: rev_cases) (auto simp: py_index_def nth_append)

lemma segment_tail_ok:
  assumes "fdata data c = Some xs" and "xs \<noteq> []"
  shows "segment_tail node data (int (length xs)) index remaining c p =
           Inr (input_data_on_channel [py_slice xs index (int (length xs)) @ filling node xs remaining] c p)"
  using assms
  by (simp add: segment_tail_def get_data_on_channel_def py_index_final filling_def py_repeat_def)

lemma loop_rounds_props:
  assumes "0 < seg_step_size node"
  shows "loop_indices (seg_window_size node) (seg_step_size node) (int n) 0 =
           map (\<lambda>k. int k * seg_step_size node) [0..<loop_rounds node n]"
    and "\<forall>k<loop_rounds node n. int k * seg_step_size node + seg_window_size node < int n"
    and "\<not> (int (loop_rounds node n) * seg_step_size node + seg_window_size node < int n)"
proof -
  from loop_indices_closed[OF assms, of "seg_window_size node" "int n" 0]
  obtain K where K: "loop_indices (seg_window_size node) (seg_step_size node) (int n) 0 =
        map (\<lambda>k. 0 + int k * seg_step_size node) [0..<K]"
    "\<forall>k<K. 0 + int k * seg_step_size node + seg_window_size node < int n"
    "\<not> (0 + int K * seg_step_size node + seg_window_size node < int n)"
    by blast
  have "loop_rounds node n = K" by (simp add: loop_rounds_def K(1))
  with K show
    "loop_indices (seg_window_size node) (seg_step_size node) (int n) 0 =
           map (\<lambda>k. int k * seg_step_size node) [0..<loop_rounds node n]"
    "\<forall>k<loop_rounds node n. int k * seg_step_size node + seg_window_size node < int n"
    "\<not> (int (loop_rounds node n) * seg_step_size node + seg_window_size node < int n)"
    by simp_all
qed

lemma loop_rounds_below:
  assumes "0 < seg_step_size node" and "seg_step_size node < seg_window_size node" and "0 < n"
  shows "int (loop_rounds node n) * seg_step_size node < int n"
proof (cases "loop_rounds node n")
  case 0
  then show ?thesis using assms(3) by simp
next
  case (Suc j)
  then have "j < loop_rounds node n" by simp
  with loop_rounds_props(2)[OF assms(1), of n]
  have "int j * seg_step_size node + seg_window_size node < int n" by blast
  then show ?thesis using Suc assms(2) by (simp add: algebra_simps)
qed

lemma loop_rounds_empty:
  assumes "0 < seg_step_size node" and "seg_step_size node < seg_window_size node"
  shows "loop_rounds node 0 = 0"
proof (rule ccontr)
  assume "loop_rounds node 0 \<noteq> 0"
  then have "0 < loop_rounds node 0" by simp
  with loop_rounds_props(2)[OF assms(1), of 0]
  have "int 0 * seg_step_size node + seg_window_size node < int 0" by blast
  then show False using assms by simp
qed

lemma segment_data_result:
  fixes data :: "'a::zero framework_data"
  assumes rect: "rectangular data n"
    and c: "c \<in> set (channels data)" and xs: "fdata data c = Some xs"
    and step: "0 < seg_step_size node" "seg_step_size node < seg_window_size node"
  shows "\<exists>out. segment_data node data = Some (Inr out) \<and>
           sampling_frequency out = sampling_frequency data \<and>
           fdata out c =
             (if n = 0 then None
              else Some (map (\<lambda>k. take (nat (seg_window_size node)) (drop (k * nat (seg_step_size node)) xs))
                           [0..<loop_rounds node n] @
                         [drop (loop_rounds node n * nat (seg_step_size node)) xs @
                          filling node xs (int n - int (loop_rounds node n) * seg_step_size node)]))"
proof -
  let ?ws = "seg_window_size node" and ?step = "seg_step_size node"
  let ?K = "loop_rounds node n"
  let ?p = "new_framework_data (sampling_frequency data) :: 'a list framework_data"
  have present: "channels_present data" using rect by (rule rectangular_present)
  then have d: "distinct (channels data)" and has: "\<forall>c\<in>set (channels data). has_channel data c"
    by (simp_all add: channels_present_def list_all_iff)
  have chans: "get_channels_as_set data = channels data"
    using d by (rule get_channels_as_set_distinct)
  have count: "get_data_count data = int n" using rect c by (rule rectangular_data_count)
  have len: "length xs = n" using rect c xs by (auto elim: rectangular_lookup)
  from segment_while_result[OF step(1) d has, of "int n" 0 ?p]
  obtain out1 where out1: "segment_while node data (channels data) (int n) 0 ?p =
        Some (Inr (?step * int ?K, out1))"
    "sampling_frequency out1 = sampling_frequency ?p"
    "\<forall>c. channel_or_empty out1 c =
       (if c \<in> set (channels data)
        then channel_or_empty ?p c @
             map (\<lambda>i. py_slice (channel_or_empty data c) i (i + ?ws)) (loop_indices ?ws ?step (int n) 0)
        else channel_or_empty ?p c)"
    unfolding loop_rounds_def by auto
  have freq: "sampling_frequency ?p = sampling_frequency data"
    by (simp add: new_framework_data_def)
  have empty: "channel_or_empty ?p c' = []" for c'
    by (simp add: new_framework_data_def channel_or_empty_def)
  show ?thesis
  proof (cases "n = 0")
    case True
    then have K0: "?K = 0" using loop_rounds_empty[OF step] by simp
    have "loop_indices ?ws ?step (int n) 0 = []"
      using K0 by (simp add: loop_rounds_def)
    have "segment_while node data (channels data) (int n) 0 ?p = Some (Inr (0, ?p))"
      using True step by (subst segment_while.simps) simp
    then have "segment_data node data = Some (Inr ?p)"
      using True by (simp add: segment_data_def chans count)
    then show ?thesis using True
      by (intro exI[of _ ?p]) (simp add: new_framework_data_def)
  next
    case False
    then have npos: "0 < n" by simp
    let ?index = "?step * int ?K"
    let ?remaining = "int n - ?index"
    have below: "int ?K * ?step < int n" using loop_rounds_below[OF step npos] .
    then have rem: "?remaining \<noteq> 0" by (simp add: mult.commute)
    let ?F = "\<lambda>c'. [py_slice (channel_or_empty data c') ?index (int n) @
                     filling node (channel_or_empty data c') ?remaining]"
    have tail_step: "\<exists>p'. segment_tail node data (int n) ?index ?remaining c' q = Inr p' \<and>
            sampling_frequency p' = sampling_frequency q \<and>
            (True \<longrightarrow> has_channel p' c') \<and>
            (\<forall>c''. channel_or_empty p' c'' =
               (if c'' = c' then channel_or_empty q c' @ ?F c' else channel_or_empty q c'')) \<and>
            (\<forall>c''. has_channel q c'' \<longrightarrow> has_channel p' c'')"
      if c': "c' \<in> set (channels data)" for c' and q :: "'a list framework_data"
    proof -
      from rect c' obtain zs where "fdata data c' = Some zs" "length zs = n"
        by (auto elim: rectangular_lookup)
      then have zs: "fdata data c' = Some (channel_or_empty data c')"
        "length (channel_or_empty data c') = n"
        by (simp_all add: channel_or_empty_Some)
      then have ne: "channel_or_empty data c' \<noteq> []" using npos by auto
      from segment_tail_ok[OF zs(1) ne, of node ?index ?remaining q]
      show ?thesis
        by (simp add: zs(2) input_data_on_channel_frequency has_channel_input channel_or_empty_input)
    qed
    from for_each_channels[of "channels data" "segment_tail node data (int n) ?index ?remaining"
        True ?F out1, OF d tail_step]
    obtain out where out: "for_each (segment_tail node data (int n) ?index ?remaining)
          (channels data) out1 = Inr out"
      "sampling_frequency out = sampling_frequency out1"
      "\<forall>c'. channel_or_empty out c' =
         (if c' \<in> set (channels data) then channel_or_empty out1 c' @ ?F c' else channel_or_empty out1 c')"
      "\<forall>c'\<in>set (channels data). has_channel out c'"
      by blast
    have run: "segment_data node data = Some (Inr out)"
      using out1(1) out(1) rem by (simp add: segment_data_def chans count Let_def)
    have cxs: "channel_or_empty data c = xs" using xs by (rule channel_or_empty_Some)
    have loop: "map (\<lambda>i. py_slice xs i (i + ?ws)) (loop_indices ?ws ?step (int n) 0) =
                map (\<lambda>k. take (nat ?ws) (drop (k * nat ?step) xs)) [0..<?K]"
    proof -
      have "py_slice xs (int k * ?step) (int k * ?step + ?ws) =
            take (nat ?ws) (drop (k * nat ?step) xs)" for k
      proof -
        have "0 \<le> int k * ?step" using step by simp
        moreover have "int k * ?step \<le> int k * ?step + ?ws" using step by simp
        ultimately have "py_slice xs (int k * ?step) (int k * ?step + ?ws) =
            take (nat (int k * ?step + ?ws) - nat (int k * ?step)) (drop (nat (int k * ?step)) xs)"
          by (rule py_slice_nat)
        moreover have "nat (int k * ?step) = k * nat ?step"
          by (simp add: nat_mult_distrib)
        moreover have "nat (int k * ?step + ?ws) - nat (int k * ?step) = nat ?ws"
          using step by (simp add: nat_add_distrib nat_mult_distrib)
        ultimately show ?thesis by simp
      qed
      then show ?thesis
        by (simp add: loop_rounds_props(1)[OF step(1)] comp_def)
    qed
    have tail: "py_slice xs ?index (int n) = drop (?K * nat ?step) xs"
    proof -
      have "0 \<le> ?index" using step by simp
      moreover have "?index \<le> int n" using below by (simp add: mult.commute)
      ultimately have "py_slice xs ?index (int n) =
          take (nat (int n) - nat ?index) (drop (nat ?index) xs)"
        by (rule py_slice_nat)
      moreover have "nat ?index = ?K * nat ?step"
        using step by (simp add: nat_mult_distrib mult.commute)
      ultimately show ?thesis by (simp add: len)
    qed
    have "has_channel out c" using out(4) c by blast
    then have "fdata out c = Some (channel_or_empty out c)" by (rule has_channel_fdata)
    also have "channel_or_empty out c =
        map (\<lambda>k. take (nat ?ws) (drop (k * nat ?step) xs)) [0..<?K] @
        [drop (?K * nat ?step) xs @ filling node xs (int n - int ?K * ?step)]"
      using out(3) out1(3) c by (simp add: empty cxs loop tail mult.commute)
    finally show ?thesis
      using run out(2) out1(2) freq False by (intro exI[of _ out]) simp
  qed
qed

lemma filling_none: "filling node xs (seg_window_size node) = []"
  by (simp add: filling_def)

lemma filling_length:
  "seg_filling_value node = ''zero'' \<or> seg_filling_value node = ''latest'' \<Longrightarrow>
   length (filling node xs r) = nat (seg_window_size node - r)"
  by (auto simp: filling_def)

section \<open>Sliding-window segmenter: the epochs start at increasing positions\<close>

lemma epochs_distinct:
  assumes "distinct xs" and "0 < s" and "0 < w" and "K * s < length xs"
  shows "distinct (map (\<lambda>k. take w (drop (k * s) xs)) [0..<K] @ [drop (K * s) xs @ fill])"
proof -
  let ?g = "\<lambda>k. if k < K then take w (drop (k * s) xs) else drop (K * s) xs @ fill"
  have eq: "map (\<lambda>k. take w (drop (k * s) xs)) [0..<K] @ [drop (K * s) xs @ fill] =
            map ?g [0..<Suc K]"
    by simp
  have hd_g: "hd (?g k) = xs ! (k * s)" if "k \<le> K" for k
  proof -
    have "k * s \<le> K * s" using that by (rule mult_le_mono1)
    then have lt: "k * s < length xs" using assms(4) by (rule le_less_trans)
    then have "drop (k * s) xs \<noteq> []" by simp
    then have "hd (take w (drop (k * s) xs)) = xs ! (k * s)"
      using lt assms(3) by (simp add: hd_drop_conv_nth)
    moreover have "hd (drop (K * s) xs @ fill) = xs ! (K * s)"
      using assms(4) by (simp add: hd_append hd_drop_conv_nth)
    ultimately show ?thesis using that by auto
  qed
  have "inj_on ?g (set [0..<Suc K])"
  proof (rule inj_onI)
    fix i j assume i: "i \<in> set [0..<Suc K]" and j: "j \<in> set [0..<Suc K]" and g: "?g i = ?g j"
    then have "i \<le> K" "j \<le> K" by auto
    then have "xs ! (i * s) = xs ! (j * s)" using hd_g[of i] hd_g[of j] g by simp
    moreover have "i * s < length xs" "j * s < length xs"
      using \<open>i \<le> K\<close> \<open>j \<le> K\<close> assms(4)
      by (meson le_less_trans mult_le_mono1)+
    ultimately have "i * s = j * s" using assms(1) by (simp add: nth_eq_iff_index_eq)
    then show "i = j" using assms(2) by simp
  qed
  then have "distinct (map ?g [0..<Suc K])" by (simp add: distinct_map del: upt_Suc)
  then show ?thesis unfolding eq .
qed

lemma epochs_starts:
  assumes "0 < w" and "K * s < length xs" and "k \<le> K"
  shows "hd ((map (\<lambda>k. take w (drop (k * s) xs)) [0..<K] @ [drop (K * s) xs @ fill]) ! k) = xs ! (k * s)"
proof -
  have "k * s \<le> K * s" using assms(3) by (rule mult_le_mono1)
  then have lt: "k * s < length xs" using assms(2) by (rule le_less_trans)
  show ?thesis
  proof (cases "k < K")
    case True
    then show ?thesis using lt assms(1) by (simp add: nth_append hd_drop_conv_nth)
  next
    case False
    then have "k = K" using assms(3) by simp
    then show ?thesis using assms(2) by (simp add: nth_append hd_append hd_drop_conv_nth)
  qed
qed

lemma distinct_last_not_earlier:
  "distinct xs \<Longrightarrow> xs \<noteq> [] \<Longrightarrow> last xs \<notin> set (butlast xs)"
  by (cases xs rule: rev_cases) auto

lemma loop_rounds_below_nat:
  assumes "0 < seg_step_size node" and "seg_step_size node < seg_window_size node" and "0 < n"
  shows "loop_rounds node n * nat (seg_step_size node) < n"
proof -
  have "int (loop_rounds node n * nat (seg_step_size node)) =
        int (loop_rounds node n) * seg_step_size node"
    using assms(1) by simp
  also have "\<dots> < int n" using assms by (rule loop_rounds_below)
  finally show ?thesis by (simp only: of_nat_less_iff)
qed

lemma segment_data_epochs_distinct:
  fixes data :: "'a::zero framework_data"
  assumes "rectangular data n"
    and "c \<in> set (channels data)" and "fdata data c = Some xs"
    and "0 < seg_step_size node" and "seg_step_size node < seg_window_size node"
    and "distinct xs"
  shows "\<exists>out. segment_data node data = Some (Inr out) \<and>
           (n = 0 \<longrightarrow> fdata out c = None) \<and>
           (0 < n \<longrightarrow>
              (\<exists>epochs. fdata out c = Some epochs \<and> distinct epochs \<and>
                 length epochs = Suc (loop_rounds node n) \<and>
                 (\<forall>k<length epochs. hd (epochs ! k) = xs ! (k * nat (seg_step_size node)))))"
proof -
  let ?w = "nat (seg_window_size node)" and ?s = "nat (seg_step_size node)"
  let ?K = "loop_rounds node n"
  let ?fill = "filling node xs (int n - int ?K * seg_step_size node)"
  let ?L = "map (\<lambda>k. take ?w (drop (k * ?s) xs)) [0..<?K] @ [drop (?K * ?s) xs @ ?fill]"
  have len: "length xs = n" using assms(1,2,3) by (auto elim: rectangular_lookup)
  from segment_data_result[OF assms(1,2,3,4,5)]
  obtain out where out: "segment_data node data = Some (Inr out)"
    "fdata out c = (if n = 0 then None else Some ?L)"
    by blast
  have "\<exists>epochs. fdata out c = Some epochs \<and> distinct epochs \<and>
          length epochs = Suc ?K \<and>
          (\<forall>k<length epochs. hd (epochs ! k) = xs ! (k * ?s))" if npos: "0 < n"
  proof -
    have s: "0 < ?s" and w: "0 < ?w" using assms(4,5) by simp_all
    have below: "?K * ?s < length xs"
      unfolding len using assms(4,5) npos by (rule loop_rounds_below_nat)
    have "distinct ?L" using assms(6) s w below by (rule epochs_distinct)
    moreover have "\<forall>k<length ?L. hd (?L ! k) = xs ! (k * ?s)"
    proof (intro allI impI)
      fix k assume "k < length ?L"
      then have "k \<le> ?K" by simp
      with w below show "hd (?L ! k) = xs ! (k * ?s)" by (rule epochs_starts)
    qed
    moreover have "fdata out c = Some ?L" using out(2) npos by simp
    moreover have "length ?L = Suc ?K" by simp
    ultimately show ?thesis by blast
  qed
  moreover have "n = 0 \<longrightarrow> fdata out c = None" using out(2) by simp
  ultimately show ?thesis using out(1) by blast
qed

section \<open>Interpolate, sliding mode\<close>

text \<open>
  After \<open>k\<close> epochs \<^verbatim>\<open>merged_data\<close> is \<open>merged_slots n s xs k\<close>: the overlap loop appends the
  value of epoch \<open>k\<close> to the slots from \<open>k * s\<close> on, and the second loop adds \<open>s\<close> new slots.
\<close>

lemma for_each_append:
  "for_each body (xs @ ys) s =
     (case for_each body xs s of Inl e \<Rightarrow> Inl e | Inr s' \<Rightarrow> for_each body ys s')"
  by (induction xs arbitrary: s) (auto split: sum.splits)

lemma upto_int: "[int i..int j - 1] = map int [i..<j]"
proof (induction j)
  case 0
  then show ?case by simp
next
  case (Suc j)
  show ?case
  proof (cases "i \<le> j")
    case True
    then have "[int i..int (Suc j) - 1] = [int i..int j - 1] @ [int j]"
      using upto_rec2[of "int i" "int j"] by simp
    then show ?thesis using Suc True by simp
  next
    case False
    then show ?thesis by simp
  qed
qed

lemma py_range_nat: "0 \<le> a \<Longrightarrow> py_range a b = map int [nat a..<nat b]"
proof -
  assume a: "0 \<le> a"
  show ?thesis
  proof (cases "0 \<le> b")
    case True
    with a upto_int[of "nat a" "nat b"] show ?thesis by (simp add: py_range_def)
  next
    case False
    with a show ?thesis by (simp add: py_range_def)
  qed
qed

lemma append_slot_for_each:
  assumes "window_value main c w = Inr v"
  shows "for_each (append_slot main c w) idxs merged = Inr (merged @ replicate (length idxs) [v])"
  using assms
  by (induction idxs arbitrary: merged) (simp_all add: append_slot_def replicate_app_Cons_same)

lemma append_to_slot_at:
  assumes "window_value main c w = Inr v" and "j < length merged"
  shows "append_to_slot main c w (int j) merged = Inr (merged[j := merged ! j @ [v] ])"
  using assms by (simp add: append_to_slot_def py_index_nat py_position_def)

lemma append_to_slot_for_each:
  assumes "window_value main c w = Inr v" and "j \<le> length merged"
  shows "for_each (append_to_slot main c w) (map int [i..<j]) merged =
           Inr (map (\<lambda>k. if i \<le> k \<and> k < j then merged ! k @ [v] else merged ! k) [0..<length merged])"
  using assms(2)
proof (induction j)
  case 0
  then show ?case by (simp add: map_nth)
next
  case (Suc j)
  let ?M = "\<lambda>j. map (\<lambda>k. if i \<le> k \<and> k < j then merged ! k @ [v] else merged ! k) [0..<length merged]"
  show ?case
  proof (cases "i \<le> j")
    case False
    then have "?M (Suc j) = map (\<lambda>k. merged ! k) [0..<length merged]" by auto
    then show ?thesis using False by (simp add: map_nth)
  next
    case True
    have j: "j < length merged" using Suc.prems by simp
    have IH: "for_each (append_to_slot main c w) (map int [i..<j]) merged = Inr (?M j)"
      using Suc.IH j by simp
    have "append_to_slot main c w (int j) (?M j) = Inr ((?M j)[j := ?M j ! j @ [v] ])"
      using assms(1) j by (intro append_to_slot_at) simp_all
    moreover have "(?M j)[j := ?M j ! j @ [v] ] = ?M (Suc j)"
      using j True by (intro nth_equalityI) (auto simp: nth_list_update)
    ultimately show ?thesis
      using True IH by (simp add: for_each_append)
  qed
qed

lemma candidates_Suc:
  "candidates n s xs (Suc k) j =
     candidates n s xs k j @ (if k * s \<le> j \<and> j < k * s + n then [xs ! k] else [])"
  by (simp add: candidates_def)

lemma candidates_beyond:
  assumes "n + (k - 1) * s \<le> j"
  shows "candidates n s xs k j = []"
proof -
  have "\<not> (w * s \<le> j \<and> j < w * s + n)" if "w < k" for w
  proof -
    from that have "w \<le> k - 1" by simp
    then have "w * s \<le> (k - 1) * s" by (rule mult_le_mono1)
    then have "w * s + n \<le> j" using assms by linarith
    then show ?thesis by simp
  qed
  then show ?thesis by (simp add: candidates_def filter_empty_conv)
qed

lemma candidates_nonempty:
  assumes "s \<le> n" and "1 \<le> k" and "j < n + (k - 1) * s"
  shows "candidates n s xs k j \<noteq> []"
  using assms(2,3)
proof (induction k)
  case 0
  then show ?case by simp
next
  case (Suc k)
  show ?case
  proof (cases "k = 0")
    case True
    then show ?thesis using Suc.prems by (simp add: candidates_Suc)
  next
    case False
    show ?thesis
    proof (cases "j < n + (k - 1) * s")
      case True
      then show ?thesis using Suc.IH False by (simp add: candidates_Suc)
    next
      case beyond: False
      have "k * s = (k - 1) * s + s" using False by (cases k) simp_all
      then have "k * s \<le> j" "j < k * s + n" using beyond assms(1) Suc.prems(2) by simp_all
      then show ?thesis by (simp add: candidates_Suc)
    qed
  qed
qed

lemma candidates_set:
  "set (candidates n s xs k j) = (!) xs ` {w. w < k \<and> w * s \<le> j \<and> j < w * s + n}"
  by (auto simp: candidates_def)

lemma merged_slots_length: "length (merged_slots n s xs k) = n + (k - 1) * s"
  by (simp add: merged_slots_def)

lemma merged_slots_first: "merged_slots n s xs 1 = replicate n [xs ! 0]"
  by (rule nth_equalityI) (simp_all add: merged_slots_def candidates_def)

lemma merged_slots_Suc:
  assumes "s \<le> n" and "1 \<le> k"
  shows "map (\<lambda>j. if k * s \<le> j \<and> j < n + (k - 1) * s
                  then merged_slots n s xs k ! j @ [xs ! k] else merged_slots n s xs k ! j)
           [0..<length (merged_slots n s xs k)] @ replicate s [xs ! k] =
         merged_slots n s xs (Suc k)"
proof (rule nth_equalityI)
  have ks: "k * s = (k - 1) * s + s" using assms(2) by (cases k) simp_all
  show "length (map (\<lambda>j. if k * s \<le> j \<and> j < n + (k - 1) * s
                  then merged_slots n s xs k ! j @ [xs ! k] else merged_slots n s xs k ! j)
           [0..<length (merged_slots n s xs k)] @ replicate s [xs ! k]) =
        length (merged_slots n s xs (Suc k))"
    using ks by (simp add: merged_slots_length)
  fix j
  assume "j < length (map (\<lambda>j. if k * s \<le> j \<and> j < n + (k - 1) * s
                  then merged_slots n s xs k ! j @ [xs ! k] else merged_slots n s xs k ! j)
           [0..<length (merged_slots n s xs k)] @ replicate s [xs ! k])"
  then have j: "j < n + (k - 1) * s + s" by (simp add: merged_slots_length)
  then have j': "j < n + k * s" using ks by simp
  show "(map (\<lambda>j. if k * s \<le> j \<and> j < n + (k - 1) * s
                  then merged_slots n s xs k ! j @ [xs ! k] else merged_slots n s xs k ! j)
           [0..<length (merged_slots n s xs k)] @ replicate s [xs ! k]) ! j =
        merged_slots n s xs (Suc k) ! j"
  proof (cases "j < n + (k - 1) * s")
    case True
    then have "j < k * s + n" using ks by simp
    then show ?thesis
      using True j' by (simp add: nth_append merged_slots_def candidates_Suc)
  next
    case False
    then have b: "n + (k - 1) * s \<le> j" by simp
    then have "k * s \<le> j" "j < k * s + n" using ks assms(1) j by simp_all
    moreover have "candidates n s xs k j = []" using b by (rule candidates_beyond)
    ultimately show ?thesis
      using False j j' by (simp add: nth_append merged_slots_def candidates_Suc)
  qed
qed

declare interpolate_while.simps [simp del]

lemma py_range_int: "py_range (int a) (int b) = map int [a..<b]"
  by (simp only: py_range_def upto_int)

lemma py_range_length: "length (py_range 0 (int s)) = s"
  using py_range_int[of 0 s] by simp

lemma interpolate_while_result:
  assumes xs: "fdata main c = Some xs"
    and ws: "ip_window_size node = int n" and step: "ip_step_size node = int s"
    and sn: "s \<le> n" and k: "1 \<le> k" "k \<le> length xs"
  shows "interpolate_while node main c (int (length xs)) (int n - int s) (int k)
           (int (n + (k - 1) * s)) (merged_slots n s xs k) =
         Inr (merged_slots n s xs (length xs))"
  using k
proof (induction "length xs - k" arbitrary: k)
  case 0
  then have "k = length xs" by simp
  then show ?case by (subst interpolate_while.simps) simp
next
  case (Suc d)
  then have lt: "k < length xs" by simp
  let ?M = "merged_slots n s xs k"
  have v: "window_value main c (int k) = Inr (xs ! k)"
    using xs lt by (rule window_value_nat)
  have ks: "k * s = (k - 1) * s + s" using Suc.prems(1) by (cases k) simp_all
  have lower: "int (n + (k - 1) * s) - (int n - int s) = int (k * s)"
    using ks by simp
  have range: "py_range (int (n + (k - 1) * s) - (int n - int s)) (int (n + (k - 1) * s)) =
               map int [k * s..<n + (k - 1) * s]"
    unfolding lower by (rule py_range_int)
  let ?M' = "map (\<lambda>j. if k * s \<le> j \<and> j < n + (k - 1) * s then ?M ! j @ [xs ! k] else ?M ! j)
               [0..<length ?M]"
  have overlap: "for_each (append_to_slot main c (int k))
                   (py_range (int (n + (k - 1) * s) - (int n - int s)) (int (n + (k - 1) * s))) ?M =
                 Inr ?M'"
    unfolding range using v by (rule append_to_slot_for_each) (simp add: merged_slots_length)
  have fresh: "for_each (append_slot main c (int k)) (py_range 0 (int s)) ?M' =
               Inr (?M' @ replicate s [xs ! k])"
    using append_slot_for_each[OF v, of "py_range 0 (int s)" ?M'] by (simp only: py_range_length)
  have next_slots: "?M' @ replicate s [xs ! k] = merged_slots n s xs (Suc k)"
    using sn Suc.prems(1) by (rule merged_slots_Suc)
  have "interpolate_while node main c (int (length xs)) (int n - int s) (int k)
           (int (n + (k - 1) * s)) ?M =
        interpolate_while node main c (int (length xs)) (int n - int s) (int k + 1)
           (int (n + (k - 1) * s) + int s) (merged_slots n s xs (Suc k))"
    using lt overlap fresh next_slots
    by (subst interpolate_while.simps) (simp add: step)
  also have "int k + 1 = int (Suc k)" by simp
  also have "int (n + (k - 1) * s) + int s = int (n + (Suc k - 1) * s)"
    using ks by simp
  also have "interpolate_while node main c (int (length xs)) (int n - int s) (int (Suc k))
           (int (n + (Suc k - 1) * s)) (merged_slots n s xs (Suc k)) =
         Inr (merged_slots n s xs (length xs))"
    using Suc.hyps(2) lt by (intro Suc.hyps(1)) simp_all
  finally show ?case .
qed

lemma resolve_slot_Max: "slot \<noteq> [] \<Longrightarrow> resolve_slot slot = [Max (set slot)]"
proof (cases slot)
  case Nil
  assume "slot \<noteq> []"
  with Nil show ?thesis by simp
next
  case (Cons x rest)
  show ?thesis
  proof (cases rest)
    case Nil
    with Cons show ?thesis by simp
  next
    case (Cons y rest')
    with \<open>slot = x # rest\<close> show ?thesis
      using Max.set_eq_fold[of x "y # rest'"] by simp
  qed
qed

lemma resolve_merged_slots:
  assumes "s \<le> n" and "1 \<le> k"
  shows "concat (map (\<lambda>index. resolve_slot (merged_slots n s xs k ! index))
                   [0..<length (merged_slots n s xs k)]) =
         map (\<lambda>j. Max (set (candidates n s xs k j))) [0..<n + (k - 1) * s]"
proof -
  have "map (\<lambda>index. resolve_slot (merged_slots n s xs k ! index)) [0..<n + (k - 1) * s] =
        map (\<lambda>j. [Max (set (candidates n s xs k j))]) [0..<n + (k - 1) * s]"
  proof (rule map_cong[OF refl])
    fix j assume "j \<in> set [0..<n + (k - 1) * s]"
    then have j: "j < n + (k - 1) * s" by simp
    then have "merged_slots n s xs k ! j = candidates n s xs k j"
      by (simp add: merged_slots_def)
    moreover have "candidates n s xs k j \<noteq> []"
      using assms j by (rule candidates_nonempty)
    ultimately show "resolve_slot (merged_slots n s xs k ! j) = [Max (set (candidates n s xs k j))]"
      by (simp add: resolve_slot_Max)
  qed
  then have "concat (map (\<lambda>index. resolve_slot (merged_slots n s xs k ! index)) [0..<n + (k - 1) * s]) =
             concat (map (\<lambda>j. [Max (set (candidates n s xs k j))]) [0..<n + (k - 1) * s])"
    by (rule arg_cong)
  then show ?thesis by (simp only: merged_slots_length concat_map_singleton)
qed

lemma interpolate_sliding_channel_ok:
  fixes main :: "'a::linorder framework_data"
  assumes xs: "fdata main c = Some xs" and ne: "xs \<noteq> []"
    and ws: "ip_window_size node = int n" and step: "ip_step_size node = int s"
    and sn: "s \<le> n"
  shows "\<exists>p'. interpolate_sliding_channel node main (int (length xs))
               (ip_window_size node - ip_step_size node) c p = Inr p' \<and>
            sampling_frequency p' = sampling_frequency p \<and>
            (False \<longrightarrow> has_channel p' c) \<and>
            (\<forall>c'. channel_or_empty p' c' =
               (if c' = c
                then channel_or_empty p c @
                     map (\<lambda>j. Max (set (candidates n s xs (length xs) j))) [0..<n + (length xs - 1) * s]
                else channel_or_empty p c')) \<and>
            (\<forall>c'. has_channel p c' \<longrightarrow> has_channel p' c')"
proof -
  let ?W = "length xs"
  let ?M = "merged_slots n s xs ?W"
  have W: "1 \<le> ?W" using ne by (cases xs) simp_all
  have v0: "window_value main c 0 = Inr (xs ! 0)"
    using window_value_nat[OF xs, of 0] ne by simp
  have first: "for_each (append_slot main c 0) (py_range 0 (ip_window_size node)) [] =
               Inr (merged_slots n s xs 1)"
    using append_slot_for_each[OF v0, of "py_range 0 (int n)" "[]"]
    by (simp add: ws py_range_length merged_slots_first[unfolded One_nat_def])
  have loop: "interpolate_while node main c (int ?W) (ip_window_size node - ip_step_size node)
                1 (ip_window_size node) (merged_slots n s xs 1) = Inr ?M"
    using interpolate_while_result[OF xs ws step sn, of 1] W by (simp add: ws step)
  let ?r = "fold (\<lambda>index p. input_data_on_channel (resolve_slot (?M ! index)) c p)
              [0..<length ?M] p"
  have run: "interpolate_sliding_channel node main (int ?W)
               (ip_window_size node - ip_step_size node) c p = Inr ?r"
    by (simp only: interpolate_sliding_channel_def first loop sum.case)
  show ?thesis
    unfolding run
    by (intro exI[of _ ?r])
       (simp add: fold_input_frequency fold_input_channel fold_input_present
          resolve_merged_slots[OF sn W])
qed

lemma covering_int:
  "{w. w < W \<and> int w * int s \<le> int j \<and> int j < int w * int s + int n} =
   {w. w < W \<and> w * s \<le> j \<and> j < w * s + n}"
proof -
  have "int w * int s \<le> int j \<longleftrightarrow> w * s \<le> j" for w
    by (simp only: of_nat_mult[symmetric] of_nat_le_iff)
  moreover have "int j < int w * int s + int n \<longleftrightarrow> j < w * s + n" for w
    by (simp only: of_nat_mult[symmetric] of_nat_add[symmetric] of_nat_less_iff)
  ultimately show ?thesis by simp
qed

section \<open>The sampling frequency of the outputs\<close>

text \<open>
  These hold for every input and every node, whether or not the shapes fit: a result, when
  there is one, carries the frequency the container was created with.
\<close>

lemma for_each_frequency:
  assumes "\<And>x s s'. x \<in> set xs \<Longrightarrow> body x s = Inr s' \<Longrightarrow> sampling_frequency s' = sampling_frequency s"
    and "for_each body xs s = Inr s'"
  shows "sampling_frequency s' = sampling_frequency s"
  using assms
proof (induction xs arbitrary: s)
  case Nil
  then show ?case by simp
next
  case (Cons x xs)
  from Cons.prems(2) obtain q where q: "body x s = Inr q" "for_each body xs q = Inr s'"
    by (auto split: sum.splits)
  have "sampling_frequency q = sampling_frequency s" using Cons.prems(1)[of x s q] q(1) by simp
  moreover have "sampling_frequency s' = sampling_frequency q"
    using Cons.IH[OF _ q(2)] Cons.prems(1) by auto
  ultimately show ?case by simp
qed

lemma replicate_channel_frequency:
  assumes "replicate_channel node main c p = Inr p'"
  shows "sampling_frequency p' = sampling_frequency p"
proof (cases "get_data_on_channel main c")
  case (Inl e)
  then show ?thesis using assms by (simp add: replicate_channel_def)
next
  case (Inr xs)
  let ?r = "fold (\<lambda>element p. input_data_on_channel (py_repeat element (data_repetition_count node)) c p) xs p"
  have r: "sampling_frequency ?r = sampling_frequency p" by (rule fold_input_frequency)
  show ?thesis
  proof (cases "use_extra_data node")
    case False
    then have "p' = ?r" using assms Inr by (simp add: replicate_channel_def)
    then show ?thesis using r by simp
  next
    case True
    show ?thesis
    proof (cases "0 < extra_data node")
      case False
      then have "p' = input_data_on_channel [] c ?r"
        using assms Inr True by (simp add: replicate_channel_def)
      then show ?thesis using r by (simp add: input_data_on_channel_frequency)
    next
      case pos: True
      show ?thesis
      proof (cases "py_index xs (- 1)")
        case (Inl e)
        then show ?thesis using assms Inr True pos by (simp add: replicate_channel_def)
      next
        case v: (Inr v)
        then have "p' = input_data_on_channel (py_repeat v (extra_data node)) c ?r"
          using assms Inr True pos by (simp add: replicate_channel_def)
        then show ?thesis using r by (simp add: input_data_on_channel_frequency)
      qed
    qed
  qed
qed

lemma interpolate_channel_frequency:
  assumes "interpolate_channel node main c p = Inr p'"
  shows "sampling_frequency p' = sampling_frequency p"
  using assms unfolding interpolate_channel_def
proof (rule for_each_frequency[rotated])
  fix window and s s' :: "'a framework_data"
  assume b: "(if 0 < ip_window_size node
        then case window_value main c window of
               Inl e \<Rightarrow> Inl e
             | Inr v \<Rightarrow> Inr (input_data_on_channel (py_repeat v (ip_window_size node)) c s)
        else Inr (input_data_on_channel [] c s)) = Inr s'"
  show "sampling_frequency s' = sampling_frequency s"
  proof (cases "0 < ip_window_size node")
    case False
    then have "s' = input_data_on_channel [] c s" using b by simp
    then show ?thesis by (simp add: input_data_on_channel_frequency)
  next
    case True
    show ?thesis
    proof (cases "window_value main c window")
      case (Inl e)
      then show ?thesis using b True by simp
    next
      case (Inr v)
      then have "s' = input_data_on_channel (py_repeat v (ip_window_size node)) c s"
        using b True by simp
      then show ?thesis by (simp add: input_data_on_channel_frequency)
    qed
  qed
qed

lemma interpolate_sliding_channel_frequency:
  assumes "interpolate_sliding_channel node main W overlap c p = Inr p'"
  shows "sampling_frequency p' = sampling_frequency p"
proof (cases "for_each (append_slot main c 0) (py_range 0 (ip_window_size node)) []")
  case (Inl e)
  then show ?thesis using assms by (simp add: interpolate_sliding_channel_def)
next
  case first: (Inr m)
  show ?thesis
  proof (cases "interpolate_while node main c W overlap 1 (ip_window_size node) m")
    case (Inl e)
    then show ?thesis using assms first by (simp add: interpolate_sliding_channel_def)
  next
    case (Inr m')
    then have "p' = fold (\<lambda>index p. input_data_on_channel (resolve_slot (m' ! index)) c p)
                      [0..<length m'] p"
      using assms first by (simp add: interpolate_sliding_channel_def)
    then show ?thesis by (simp only: fold_input_frequency)
  qed
qed

lemma segment_window_frequency:
  assumes "segment_window node data chans index p = Inr p'"
  shows "sampling_frequency p' = sampling_frequency p"
  using assms unfolding segment_window_def
proof (rule for_each_frequency[rotated])
  fix channel and s s' :: "'a list framework_data"
  assume b: "(case get_data_on_channel data channel of
            Inl e \<Rightarrow> Inl e
          | Inr xs \<Rightarrow>
              Inr (input_data_on_channel [py_slice xs index (index + seg_window_size node)] channel s)) = Inr s'"
  show "sampling_frequency s' = sampling_frequency s"
  proof (cases "get_data_on_channel data channel")
    case (Inl e)
    then show ?thesis using b by simp
  next
    case (Inr xs)
    then have "s' = input_data_on_channel [py_slice xs index (index + seg_window_size node)] channel s"
      using b by simp
    then show ?thesis by (simp add: input_data_on_channel_frequency)
  qed
qed

lemma segment_tail_frequency:
  assumes "segment_tail node data N index r c p = Inr p'"
  shows "sampling_frequency p' = sampling_frequency p"
proof -
  from assms obtain filling_vector xs where
    "p' = input_data_on_channel [py_slice xs index N @ filling_vector] c p"
    unfolding segment_tail_def by (auto split: sum.splits)
  then show ?thesis by (simp add: input_data_on_channel_frequency)
qed

lemma segment_while_frequency:
  fixes data :: "'a framework_data"
  assumes "segment_while node data chans N index p = Some (Inr (i, p'))"
  shows "sampling_frequency p' = sampling_frequency p"
proof -
  note rule = segment_while.raw_induct[where P = "\<lambda>(node::sliding_window_segmenter)
            (data::'a framework_data) (chans::channel list) (N::int) (index::int)
            (p::'a list framework_data) (y::py_error + int \<times> 'a list framework_data).
            \<forall>i' p''. y = Inr (i', p'') \<longrightarrow> sampling_frequency p'' = sampling_frequency p",
          OF _ assms]
  have "\<forall>i' p''. (Inr (i, p') :: py_error + int \<times> 'a list framework_data) = Inr (i', p'') \<longrightarrow>
           sampling_frequency p'' = sampling_frequency p"
  proof (rule rule)
    fix sw :: "sliding_window_segmenter \<Rightarrow> 'a framework_data \<Rightarrow> channel list \<Rightarrow> int \<Rightarrow> int \<Rightarrow>
               'a list framework_data \<Rightarrow> (py_error + int \<times> 'a list framework_data) option"
    fix node and data :: "'a framework_data" and chans N index
      and p :: "'a list framework_data" and y
    assume IH: "\<And>node data chans N index p y. sw node data chans N index p = Some y \<Longrightarrow>
                  \<forall>i' p''. y = Inr (i', p'') \<longrightarrow> sampling_frequency p'' = sampling_frequency p"
      and eq: "(if index + seg_window_size node < N
                then case segment_window node data chans index p of
                       Inl e \<Rightarrow> Some (Inl e)
                     | Inr q \<Rightarrow> sw node data chans N (index + seg_step_size node) q
                else Some (Inr (index, p))) = Some y"
    show "\<forall>i' p''. y = Inr (i', p'') \<longrightarrow> sampling_frequency p'' = sampling_frequency p"
    proof (cases "index + seg_window_size node < N")
      case False
      then have "y = Inr (index, p)" using eq by simp
      then show ?thesis by simp
    next
      case True
      show ?thesis
      proof (cases "segment_window node data chans index p")
        case (Inl e)
        then have "y = Inl e" using eq True by simp
        then show ?thesis by simp
      next
        case (Inr q)
        then have "sw node data chans N (index + seg_step_size node) q = Some y"
          using eq True by simp
        from IH[OF this]
        have "\<forall>i' p''. y = Inr (i', p'') \<longrightarrow> sampling_frequency p'' = sampling_frequency q" .
        then show ?thesis unfolding segment_window_frequency[OF Inr] .
      qed
    qed
  qed
  then show ?thesis by simp
qed

lemma segment_data_frequency:
  assumes "segment_data node data = Some (Inr out)"
  shows "sampling_frequency out = sampling_frequency data"
proof -
  let ?p = "new_framework_data (sampling_frequency data) :: 'a list framework_data"
  let ?N = "get_data_count data"
  let ?chans = "get_channels_as_set data"
  from assms obtain index q where loop: "segment_while node data ?chans ?N 0 ?p = Some (Inr (index, q))"
    and rest: "(if ?N - index \<noteq> 0
                then Some (for_each (segment_tail node data ?N index (?N - index)) ?chans q)
                else Some (Inr q)) = Some (Inr out)"
    by (auto simp: segment_data_def Let_def split: option.splits sum.splits prod.splits)
  have q: "sampling_frequency q = sampling_frequency data"
    using segment_while_frequency[OF loop] by (simp add: new_framework_data_def)
  show ?thesis
  proof (cases "?N - index \<noteq> 0")
    case False
    then show ?thesis using rest q by simp
  next
    case True
    then have "for_each (segment_tail node data ?N index (?N - index)) ?chans q = Inr out"
      using rest by simp
    then have "sampling_frequency out = sampling_frequency q"
      by (rule for_each_frequency[rotated]) (rule segment_tail_frequency)
    then show ?thesis using q by simp
  qed
qed

lemma DataReplicate_process_frequency:
  assumes "DataReplicate_process node data = Inr out"
  shows "\<exists>p. out = [''main'' \<mapsto> p] \<and> sampling_frequency p = Some 1"
proof -
  from assms obtain main p where
    run: "for_each (replicate_channel node main) (channels main)
            (from_multi_channel 1 (channels main)) = Inr p"
    and out: "out = [''main'' \<mapsto> p]"
    by (auto simp: DataReplicate_process_def split: option.splits sum.splits)
  from run have "sampling_frequency p = sampling_frequency (from_multi_channel 1 (channels main) :: 'a framework_data)"
    by (rule for_each_frequency[rotated]) (rule replicate_channel_frequency)
  then show ?thesis using out by (auto simp: from_multi_channel_simps)
qed

lemma Interpolate_process_frequency:
  assumes "Interpolate_process node data = Inr out"
  shows "\<exists>p. out = [''main'' \<mapsto> p] \<and> sampling_frequency p = Some 1"
proof -
  from assms obtain main p where
    run: "(if ip_sliding_window node
           then for_each (interpolate_sliding_channel node main (get_data_count main)
                            (ip_window_size node - ip_step_size node))
                  (get_channels_as_set main) (from_multi_channel 1 (get_channels_as_set main))
           else for_each (interpolate_channel node main)
                  (get_channels_as_set main) (from_multi_channel 1 (get_channels_as_set main))) = Inr p"
    and out: "out = [''main'' \<mapsto> p]"
    by (auto simp: Interpolate_process_def Let_def split: option.splits sum.splits if_splits)
  have "sampling_frequency p =
        sampling_frequency (from_multi_channel 1 (get_channels_as_set main) :: 'a framework_data)"
  proof (cases "ip_sliding_window node")
    case True
    then have "for_each (interpolate_sliding_channel node main (get_data_count main)
                            (ip_window_size node - ip_step_size node))
                  (get_channels_as_set main) (from_multi_channel 1 (get_channels_as_set main)) = Inr p"
      using run by simp
    then show ?thesis
      by (rule for_each_frequency[rotated]) (rule interpolate_sliding_channel_frequency)
  next
    case False
    then have "for_each (interpolate_channel node main)
                  (get_channels_as_set main) (from_multi_channel 1 (get_channels_as_set main)) = Inr p"
      using run by simp
    then show ?thesis
      by (rule for_each_frequency[rotated]) (rule interpolate_channel_frequency)
  qed
  then show ?thesis using out by (auto simp: from_multi_channel_simps)
qed

section \<open>The node functions return on well-shaped inputs\<close>

lemma Interpolate_process_returns:
  fixes main :: "'a::linorder framework_data"
  assumes main: "data ''main'' = Some main" and rect: "rectangular main n"
    and sliding: "ip_sliding_window node \<longrightarrow>
                    1 \<le> n \<and> 0 \<le> ip_step_size node \<and> ip_step_size node \<le> ip_window_size node"
  shows "\<exists>out. Interpolate_process node data = Inr [''main'' \<mapsto> out] \<and>
           sampling_frequency out = Some 1"
proof (cases "ip_sliding_window node")
  case False
  let ?F = "\<lambda>c. concat (map (replicate (nat (ip_window_size node))) (channel_or_empty main c))"
  have step: "\<exists>p'. (if ip_sliding_window node
             then interpolate_sliding_channel node main (get_data_count main)
                    (ip_window_size node - ip_step_size node)
             else interpolate_channel node main) c' p = Inr p' \<and>
            sampling_frequency p' = sampling_frequency p \<and>
            (False \<longrightarrow> has_channel p' c') \<and>
            (\<forall>c''. channel_or_empty p' c'' =
               (if c'' = c' then channel_or_empty p c' @ ?F c' else channel_or_empty p c'')) \<and>
            (\<forall>c''. has_channel p c'' \<longrightarrow> has_channel p' c'')"
    if c': "c' \<in> set (channels main)" for c' and p :: "'a framework_data"
  proof -
    from rect c' obtain zs where "fdata main c' = Some zs" "length zs = n"
      by (auto elim: rectangular_lookup)
    then have zs: "fdata main c' = Some (channel_or_empty main c')"
      "length (channel_or_empty main c') = n"
      by (simp_all add: channel_or_empty_Some)
    have "get_data_count main = int (length (channel_or_empty main c'))"
      using rectangular_data_count[OF rect c'] zs(2) by simp
    from interpolate_channel_ok[OF zs(1) this, of node p] False
    show ?thesis by simp
  qed
  from Interpolate_process_result[of data main node ?F, OF main rectangular_present[OF rect] step]
  show ?thesis by blast
next
  case True
  with sliding have n: "1 \<le> n" and bounds: "0 \<le> ip_step_size node"
    "ip_step_size node \<le> ip_window_size node"
    by simp_all
  obtain w s where ws: "ip_window_size node = int w" and step: "ip_step_size node = int s"
    using bounds by (metis nonneg_int_cases order_trans)
  have sw: "s \<le> w" using bounds(2) ws step by simp
  let ?F = "\<lambda>c. map (\<lambda>j. Max (set (candidates w s (channel_or_empty main c) n j)))
                   [0..<w + (n - 1) * s]"
  have stepc: "\<exists>p'. (if ip_sliding_window node
             then interpolate_sliding_channel node main (get_data_count main)
                    (ip_window_size node - ip_step_size node)
             else interpolate_channel node main) c' p = Inr p' \<and>
            sampling_frequency p' = sampling_frequency p \<and>
            (False \<longrightarrow> has_channel p' c') \<and>
            (\<forall>c''. channel_or_empty p' c'' =
               (if c'' = c' then channel_or_empty p c' @ ?F c' else channel_or_empty p c'')) \<and>
            (\<forall>c''. has_channel p c'' \<longrightarrow> has_channel p' c'')"
    if c': "c' \<in> set (channels main)" for c' and p :: "'a framework_data"
  proof -
    from rect c' obtain zs where "fdata main c' = Some zs" "length zs = n"
      by (auto elim: rectangular_lookup)
    then have zs: "fdata main c' = Some (channel_or_empty main c')"
      "length (channel_or_empty main c') = n"
      by (simp_all add: channel_or_empty_Some)
    then have ne: "channel_or_empty main c' \<noteq> []" using n by auto
    have count: "get_data_count main = int n"
      using rect c' by (rule rectangular_data_count)
    note interpolate_sliding_channel_ok[OF zs(1) ne ws step sw, of p, unfolded zs(2)]
    then show ?thesis unfolding count by (simp only: True if_True)
  qed
  from Interpolate_process_result[of data main node ?F, OF main rectangular_present[OF rect] stepc]
  show ?thesis by blast
qed

lemma segment_data_returns:
  fixes data :: "'a::zero framework_data"
  assumes rect: "rectangular data n"
    and step: "0 < seg_step_size node" "seg_step_size node < seg_window_size node"
  shows "\<exists>out. segment_data node data = Some (Inr out) \<and>
           sampling_frequency out = sampling_frequency data"
proof (cases "channels data")
  case Nil
  let ?p = "new_framework_data (sampling_frequency data) :: 'a list framework_data"
  have count: "get_data_count data = 0" using Nil by (simp add: get_data_count_def)
  have chans: "get_channels_as_set data = []" using Nil by (simp add: get_channels_as_set_def)
  have "segment_while node data [] 0 0 ?p = Some (Inr (0, ?p))"
    using step by (subst segment_while.simps) simp
  then have "segment_data node data = Some (Inr ?p)"
    by (simp add: segment_data_def count chans)
  then show ?thesis by (simp add: new_framework_data_def)
next
  case (Cons c cs)
  then have c: "c \<in> set (channels data)" by simp
  with rect obtain xs where xs: "fdata data c = Some xs" by (auto elim: rectangular_lookup)
  from segment_data_result[OF rect c xs step] show ?thesis by blast
qed

section \<open>The claims\<close>

subsection \<open>DataReplicate\<close>

text \<open>
  Claim C3.  On a rectangular input whose channels hold \<open>L \<ge> 1\<close> samples, \<^verbatim>\<open>DataReplicate._process\<close>
  returns, and every channel of its output is the input channel with each sample repeated
  \<^verbatim>\<open>data_repetition_count\<close> times in the original order (sample \<open>i\<close> of the replicated part is
  input sample \<open>i div data_repetition_count\<close>), followed, when \<^verbatim>\<open>use_extra_data\<close> is set, by
  \<^verbatim>\<open>extra_data\<close> copies of the last input sample; the length is
  \<open>L * data_repetition_count + (extra_data if enabled else 0)\<close>.  A count that is not positive
  gives no copies, as in Python.  The witness is the scenario of the spec: channel
  \<open>[10, 20]\<close>, three repetitions, two extra samples.
\<close>

theorem DataReplicate_sample_major:
  assumes "data ''main'' = Some main" and "rectangular main L" and "1 \<le> L"
    and "c \<in> set (channels main)" and "fdata main c = Some xs"
  shows "\<exists>out ys. DataReplicate_process node data = Inr [''main'' \<mapsto> out] \<and>
           fdata out c = Some ys \<and>
           ys = concat (map (replicate (nat (data_repetition_count node))) xs) @
                (if use_extra_data node then replicate (nat (extra_data node)) (last xs) else []) \<and>
           length ys = L * nat (data_repetition_count node) +
                (if use_extra_data node then nat (extra_data node) else 0) \<and>
           (\<forall>i < L * nat (data_repetition_count node). ys ! i = xs ! (i div nat (data_repetition_count node)))"
proof -
  have len: "length xs = L"
    using assms(2,4,5) by (auto elim: rectangular_lookup)
  have nonempty: "\<forall>c\<in>set (channels main). channel_or_empty main c \<noteq> []"
  proof
    fix c' assume "c' \<in> set (channels main)"
    with assms(2) obtain zs where "fdata main c' = Some zs" "length zs = L"
      by (auto elim: rectangular_lookup)
    then show "channel_or_empty main c' \<noteq> []" using assms(3) by (auto simp: channel_or_empty_def)
  qed
  from DataReplicate_process_result[of data main node, OF assms(1) rectangular_present[OF assms(2)] ] nonempty
  obtain out where out: "DataReplicate_process node data = Inr [''main'' \<mapsto> out]"
    "\<forall>c\<in>set (channels main). fdata out c = Some (replicated_channel node (channel_or_empty main c))"
    by blast
  let ?n = "nat (data_repetition_count node)"
  let ?ys = "replicated_channel node xs"
  have "fdata out c = Some ?ys"
    using out(2) assms(4,5) by (simp add: channel_or_empty_def)
  moreover have "length ?ys = L * ?n + (if use_extra_data node then nat (extra_data node) else 0)"
    by (simp add: replicated_channel_def concat_replicate_length len)
  moreover have "\<forall>i < L * ?n. ?ys ! i = xs ! (i div ?n)"
    by (simp add: replicated_channel_def nth_append concat_replicate_length concat_replicate_nth len)
  ultimately show ?thesis using out(1)
    by (intro exI[of _ out] exI[of _ ?ys]) (simp add: replicated_channel_def)
qed

theorem DataReplicate_sample_major_witness:
  "rectangular \<lparr>sampling_frequency = Some 250, channels = [''ch''], fdata = [''ch'' \<mapsto> [10, 20 :: int] ]\<rparr> 2 \<and>
   (\<exists>out. DataReplicate_process \<lparr>data_repetition_count = 3, use_extra_data = True, extra_data = 2\<rparr>
       [''main'' \<mapsto> \<lparr>sampling_frequency = Some 250, channels = [''ch''], fdata = [''ch'' \<mapsto> [10, 20 :: int] ]\<rparr>]
       = Inr [''main'' \<mapsto> out] \<and>
      fdata out ''ch'' = Some [10, 10, 10, 20, 20, 20, 20, 20])"
proof -
  let ?main = "\<lparr>sampling_frequency = Some 250, channels = [''ch''], fdata = [''ch'' \<mapsto> [10, 20 :: int] ]\<rparr>"
  let ?node = "\<lparr>data_repetition_count = 3, use_extra_data = True, extra_data = 2\<rparr>"
  have r: "rectangular ?main 2" by (simp add: rectangular_def)
  have n: "replicate 3 x = [x, x, x]" "replicate 2 x = [x, x]" for x :: int
    by (simp_all add: eval_nat_numeral)
  from DataReplicate_sample_major[of "[''main'' \<mapsto> ?main]" ?main 2 "''ch''" "[10, 20]" ?node, OF _ r]
  show ?thesis using r by (simp add: n) blast
qed

text \<open>
  Claim C10.  With \<^verbatim>\<open>use_extra_data\<close> set and a positive \<^verbatim>\<open>extra_data\<close> (validation only
  admits \<open>extra_data > 1\<close>), \<^verbatim>\<open>_process\<close> returns exactly when no channel of the input is
  empty; when some channel is empty, \<^verbatim>\<open>channel_elements[-1]\<close> raises \<^verbatim>\<open>IndexError\<close>.  The witness
  runs the node on an input with two non-empty channels and on one with an empty channel.
\<close>

theorem DataReplicate_empty_channel:
  assumes "data ''main'' = Some main" and "channels_present main"
    and "use_extra_data node" and "0 < extra_data node"
  shows "((\<exists>out. DataReplicate_process node data = Inr out) \<longleftrightarrow>
            (\<forall>c\<in>set (channels main). fdata main c \<noteq> Some [])) \<and>
         ((\<exists>c\<in>set (channels main). fdata main c = Some []) \<longrightarrow>
            DataReplicate_process node data = Inl IndexError)"
proof (cases "\<exists>c\<in>set (channels main). fdata main c = Some []")
  case True
  have present: "has_channel main c" if "c \<in> set (channels main)" for c
    using assms(2) that by (simp add: channels_present_def list_all_iff)
  have "for_each (replicate_channel node main) (channels main) p = Inl IndexError"
    for p :: "'a framework_data"
  proof (rule for_each_fails[where bad = "\<lambda>c. fdata main c = Some []"])
    show "\<exists>c\<in>set (channels main). fdata main c = Some []" by (rule True)
  next
    fix c p assume "fdata main c = Some []"
    then show "replicate_channel node main c p = Inl IndexError"
      using assms(3,4) by (rule replicate_channel_fails)
  next
    fix c and p :: "'a framework_data"
    assume c: "c \<in> set (channels main)" and ne: "fdata main c \<noteq> Some []"
    from present[OF c] have "fdata main c = Some (channel_or_empty main c)"
      by (rule has_channel_fdata)
    moreover from this ne have "channel_or_empty main c \<noteq> []" by auto
    ultimately show "\<exists>p'. replicate_channel node main c p = Inr p'"
      using replicate_channel_ok[of main c "channel_or_empty main c" node p] by blast
  qed
  then have "DataReplicate_process node data = Inl IndexError"
    using assms(1) by (simp add: DataReplicate_process_def)
  then show ?thesis using True by auto
next
  case False
  have "\<forall>c\<in>set (channels main). channel_or_empty main c \<noteq> []"
  proof
    fix c assume c: "c \<in> set (channels main)"
    then have "has_channel main c"
      using assms(2) by (simp add: channels_present_def list_all_iff)
    then have "fdata main c = Some (channel_or_empty main c)" by (rule has_channel_fdata)
    then show "channel_or_empty main c \<noteq> []" using False c by auto
  qed
  with DataReplicate_process_result[of data main node, OF assms(1,2)]
  have "\<exists>out. DataReplicate_process node data = Inr out" by blast
  then show ?thesis using False by auto
qed

theorem DataReplicate_empty_channel_witness:
  "channels_present \<lparr>sampling_frequency = None, channels = [''a'', ''b''],
                      fdata = [''a'' \<mapsto> [7 :: int], ''b'' \<mapsto> [8, 9] ]\<rparr> \<and>
   (\<exists>out. DataReplicate_process \<lparr>data_repetition_count = 3, use_extra_data = True, extra_data = 2\<rparr>
      [''main'' \<mapsto> \<lparr>sampling_frequency = None, channels = [''a'', ''b''],
                      fdata = [''a'' \<mapsto> [7 :: int], ''b'' \<mapsto> [8, 9] ]\<rparr>] = Inr out) \<and>
   channels_present \<lparr>sampling_frequency = None, channels = [''a'', ''b''],
                      fdata = [''a'' \<mapsto> [7 :: int], ''b'' \<mapsto> [] ]\<rparr> \<and>
   DataReplicate_process \<lparr>data_repetition_count = 3, use_extra_data = True, extra_data = 2\<rparr>
      [''main'' \<mapsto> \<lparr>sampling_frequency = None, channels = [''a'', ''b''],
                      fdata = [''a'' \<mapsto> [7 :: int], ''b'' \<mapsto> [] ]\<rparr>] = Inl IndexError"
proof -
  let ?node = "\<lparr>data_repetition_count = 3, use_extra_data = True, extra_data = 2\<rparr>"
  let ?good = "\<lparr>sampling_frequency = None, channels = [''a'', ''b''],
                 fdata = [''a'' \<mapsto> [7 :: int], ''b'' \<mapsto> [8, 9] ]\<rparr>"
  let ?bad = "\<lparr>sampling_frequency = None, channels = [''a'', ''b''],
                fdata = [''a'' \<mapsto> [7 :: int], ''b'' \<mapsto> [] ]\<rparr>"
  have g: "channels_present ?good" by (simp add: channels_present_def has_channel_def)
  have b: "channels_present ?bad" by (simp add: channels_present_def has_channel_def)
  have "\<exists>out. DataReplicate_process ?node [''main'' \<mapsto> ?good] = Inr out"
    using DataReplicate_empty_channel[of "[''main'' \<mapsto> ?good]" ?good ?node, OF _ g] by simp
  moreover have "DataReplicate_process ?node [''main'' \<mapsto> ?bad] = Inl IndexError"
    using DataReplicate_empty_channel[of "[''main'' \<mapsto> ?bad]" ?bad ?node, OF _ b] by simp
  ultimately show ?thesis using g b by blast
qed

subsection \<open>Parameter validation\<close>

text \<open>
  Claim C5, as the code has it.  When the parent's validation passes and the three keys
  are present, validation of the sliding-window segmenter succeeds exactly when
  \<^verbatim>\<open>window_size\<close> and \<^verbatim>\<open>step_size\<close> are integers with \<open>1 \<le> step_size < window_size\<close> and
  \<^verbatim>\<open>filling_value\<close> is the string \<^verbatim>\<open>zero\<close> or \<^verbatim>\<open>latest\<close>; in every other case it raises
  \<^verbatim>\<open>InvalidParameterValue\<close> with a cause code.  So \<open>window_size = 1\<close> is rejected (no step
  fits below it), while the lower bound of \<^verbatim>\<open>step_size\<close> is 1, not 2, as the docstring
  (\<^verbatim>\<open>must be greater than 0 and smaller than window_size\<close>) and the cause code say.
\<close>

theorem SlidingWindowSegmenter_validation:
  assumes "super_validate parameters = Inr ()"
    and "parameters ''window_size'' = Some window_size"
    and "parameters ''filling_value'' = Some filling_value"
    and "parameters ''step_size'' = Some step_size"
  shows "(SlidingWindowSegmenter_validate_parameters super_validate name parameters = Inr () \<longleftrightarrow>
            (\<exists>w f s. window_size = PInt w \<and> filling_value = PStr f \<and> step_size = PInt s \<and>
                     (f = ''zero'' \<or> f = ''latest'') \<and> 1 \<le> s \<and> s < w)) \<and>
         (SlidingWindowSegmenter_validate_parameters super_validate name parameters = Inr () \<or>
            (\<exists>parameter cause.
               SlidingWindowSegmenter_validate_parameters super_validate name parameters =
                 Inl (InvalidParameterValue SlidingWindowSegmenter_MODULE_NAME name parameter cause)))"
  using assms
  by (cases window_size; cases filling_value; cases step_size)
     (auto simp: SlidingWindowSegmenter_validate_parameters_def)

theorem SlidingWindowSegmenter_validation_witness:
  "\<exists>parameter cause.
     SlidingWindowSegmenter_validate_parameters (\<lambda>_. Inr ()) ''seg''
       [''window_size'' \<mapsto> PInt 1, ''filling_value'' \<mapsto> PStr ''zero'', ''step_size'' \<mapsto> PInt 1] =
     Inl (InvalidParameterValue SlidingWindowSegmenter_MODULE_NAME ''seg'' parameter cause)"
  using SlidingWindowSegmenter_validation[of "\<lambda>_. Inr ()"
      "[''window_size'' \<mapsto> PInt 1, ''filling_value'' \<mapsto> PStr ''zero'', ''step_size'' \<mapsto> PInt 1]"
      "PInt 1" "PStr ''zero''" "PInt 1" "''seg''"]
  by simp blast

text \<open>
  Claim C5 as the spec states it asks for \<open>1 < step_size\<close>.  The code accepts
  \<open>step_size = 1\<close> with \<open>window_size = 3\<close>: validation returns without raising.
\<close>

theorem SlidingWindowSegmenter_step_size_one_accepted:
  "SlidingWindowSegmenter_validate_parameters (\<lambda>_. Inr ()) ''seg''
     [''window_size'' \<mapsto> PInt 3, ''filling_value'' \<mapsto> PStr ''zero'', ''step_size'' \<mapsto> PInt 1] = Inr ()"
  by (simp add: SlidingWindowSegmenter_validate_parameters_def)

text \<open>
  Claim C8.  Once \<^verbatim>\<open>window_size\<close> has passed its own checks (an integer above 1, which the
  code tests first), validation of Interpolate raises \<^verbatim>\<open>MissingParameterError\<close> for
  \<^verbatim>\<open>step_size\<close> exactly when \<^verbatim>\<open>sliding_window\<close> is \<^verbatim>\<open>True\<close> and the key \<^verbatim>\<open>step_size\<close> is absent;
  with \<^verbatim>\<open>sliding_window\<close> \<^verbatim>\<open>True\<close>, a present \<^verbatim>\<open>step_size\<close> passes when it is an integer with
  \<open>1 < step_size < window_size\<close> and raises \<^verbatim>\<open>InvalidParameterValue\<close> for \<^verbatim>\<open>step_size\<close>
  otherwise; with \<^verbatim>\<open>sliding_window\<close> \<^verbatim>\<open>False\<close>, validation passes whatever \<^verbatim>\<open>step_size\<close> holds
  or whether it is there at all.
\<close>

theorem Interpolate_step_size_requirement:
  assumes "parameters ''window_size'' = Some (PInt w)" and "1 < w"
  shows "(Interpolate_validate_parameters name parameters =
            Inl (MissingParameterError Interpolate_MODULE_NAME name ''step_size'') \<longleftrightarrow>
          parameters ''sliding_window'' = Some (PBool True) \<and> parameters ''step_size'' = None) \<and>
         (parameters ''sliding_window'' = Some (PBool True) \<longrightarrow>
            (\<forall>v. parameters ''step_size'' = Some v \<longrightarrow>
               (if \<exists>s. v = PInt s \<and> 1 < s \<and> s < w
                then Interpolate_validate_parameters name parameters = Inr ()
                else \<exists>cause. Interpolate_validate_parameters name parameters =
                       Inl (InvalidParameterValue Interpolate_MODULE_NAME name ''step_size'' cause)))) \<and>
         (parameters ''sliding_window'' = Some (PBool False) \<longrightarrow>
            Interpolate_validate_parameters name parameters = Inr ())"
  using assms
  by (auto simp: Interpolate_validate_parameters_def split: option.splits param_value.splits)

theorem Interpolate_step_size_requirement_witness:
  "(1::int) < 4 \<and>
   Interpolate_validate_parameters ''ip'' [''window_size'' \<mapsto> PInt 4, ''sliding_window'' \<mapsto> PBool True] =
     Inl (MissingParameterError Interpolate_MODULE_NAME ''ip'' ''step_size'') \<and>
   Interpolate_validate_parameters ''ip''
     [''window_size'' \<mapsto> PInt 4, ''sliding_window'' \<mapsto> PBool False, ''step_size'' \<mapsto> PStr ''x''] = Inr () \<and>
   Interpolate_validate_parameters ''ip''
     [''window_size'' \<mapsto> PInt 4, ''sliding_window'' \<mapsto> PBool True, ''step_size'' \<mapsto> PInt 2] = Inr () \<and>
   (\<exists>cause. Interpolate_validate_parameters ''ip''
     [''window_size'' \<mapsto> PInt 4, ''sliding_window'' \<mapsto> PBool True, ''step_size'' \<mapsto> PInt 1] =
     Inl (InvalidParameterValue Interpolate_MODULE_NAME ''ip'' ''step_size'' cause))"
proof -
  have h: "(1::int) < 4" by simp
  have a: "Interpolate_validate_parameters ''ip'' [''window_size'' \<mapsto> PInt 4, ''sliding_window'' \<mapsto> PBool True] =
     Inl (MissingParameterError Interpolate_MODULE_NAME ''ip'' ''step_size'')"
    using Interpolate_step_size_requirement[of
        "[''window_size'' \<mapsto> PInt 4, ''sliding_window'' \<mapsto> PBool True]" 4 "''ip''", OF _ h]
    by simp
  have b: "Interpolate_validate_parameters ''ip''
     [''window_size'' \<mapsto> PInt 4, ''sliding_window'' \<mapsto> PBool False, ''step_size'' \<mapsto> PStr ''x''] = Inr ()"
    using Interpolate_step_size_requirement[of
        "[''window_size'' \<mapsto> PInt 4, ''sliding_window'' \<mapsto> PBool False, ''step_size'' \<mapsto> PStr ''x'']"
        4 "''ip''", OF _ h]
    by simp
  have c: "Interpolate_validate_parameters ''ip''
     [''window_size'' \<mapsto> PInt 4, ''sliding_window'' \<mapsto> PBool True, ''step_size'' \<mapsto> PInt 2] = Inr ()"
    using Interpolate_step_size_requirement[of
        "[''window_size'' \<mapsto> PInt 4, ''sliding_window'' \<mapsto> PBool True, ''step_size'' \<mapsto> PInt 2]"
        4 "''ip''", OF _ h]
    by simp
  have d: "\<exists>cause. Interpolate_validate_parameters ''ip''
     [''window_size'' \<mapsto> PInt 4, ''sliding_window'' \<mapsto> PBool True, ''step_size'' \<mapsto> PInt 1] =
     Inl (InvalidParameterValue Interpolate_MODULE_NAME ''ip'' ''step_size'' cause)"
    using Interpolate_step_size_requirement[of
        "[''window_size'' \<mapsto> PInt 4, ''sliding_window'' \<mapsto> PBool True, ''step_size'' \<mapsto> PInt 1]"
        4 "''ip''", OF _ h]
    by simp
  show ?thesis using h a b c d by blast
qed

subsection \<open>Interpolate, non-sliding mode\<close>

text \<open>
  Claim C7.  In non-sliding mode, on a rectangular input whose channels hold \<open>K\<close> epoch
  values, \<^verbatim>\<open>Interpolate._process\<close> returns, and every channel of its output is the
  concatenation, in epoch order, of one block of \<^verbatim>\<open>window_size\<close> copies per epoch value: its
  length is \<open>K * window_size\<close> and sample \<open>i\<close> is the epoch value at position
  \<open>i div window_size\<close>.
\<close>

theorem Interpolate_non_sliding:
  fixes main :: "'a::linorder framework_data"
  assumes "data ''main'' = Some main" and "rectangular main K"
    and "\<not> ip_sliding_window node"
    and "c \<in> set (channels main)" and "fdata main c = Some xs"
  shows "\<exists>out ys. Interpolate_process node data = Inr [''main'' \<mapsto> out] \<and>
           fdata out c = Some ys \<and>
           ys = concat (map (replicate (nat (ip_window_size node))) xs) \<and>
           length ys = K * nat (ip_window_size node) \<and>
           (\<forall>i < K * nat (ip_window_size node). ys ! i = xs ! (i div nat (ip_window_size node)))"
proof -
  let ?n = "nat (ip_window_size node)"
  let ?F = "\<lambda>c. concat (map (replicate ?n) (channel_or_empty main c))"
  have len: "length xs = K"
    using assms(2,4,5) by (auto elim: rectangular_lookup)
  have step: "\<exists>p'. (if ip_sliding_window node
             then interpolate_sliding_channel node main (get_data_count main)
                    (ip_window_size node - ip_step_size node)
             else interpolate_channel node main) c' p = Inr p' \<and>
            sampling_frequency p' = sampling_frequency p \<and>
            (False \<longrightarrow> has_channel p' c') \<and>
            (\<forall>c''. channel_or_empty p' c'' =
               (if c'' = c' then channel_or_empty p c' @ ?F c' else channel_or_empty p c'')) \<and>
            (\<forall>c''. has_channel p c'' \<longrightarrow> has_channel p' c'')"
    if c': "c' \<in> set (channels main)" for c' and p :: "'a framework_data"
  proof -
    from assms(2) c' obtain zs where "fdata main c' = Some zs" "length zs = K"
      by (auto elim: rectangular_lookup)
    then have zs: "fdata main c' = Some (channel_or_empty main c')"
      "length (channel_or_empty main c') = K"
      by (simp_all add: channel_or_empty_Some)
    have "get_data_count main = int (length (channel_or_empty main c'))"
      using rectangular_data_count[OF assms(2) c'] zs(2) by simp
    from interpolate_channel_ok[OF zs(1) this, of node p] assms(3)
    show ?thesis by simp
  qed
  from Interpolate_process_result[of data main node ?F, OF assms(1) rectangular_present[OF assms(2)] step]
  obtain out where out: "Interpolate_process node data = Inr [''main'' \<mapsto> out]"
    "\<forall>c\<in>set (channels main). fdata out c = Some (?F c)"
    by blast
  let ?ys = "concat (map (replicate ?n) xs)"
  have "fdata out c = Some ?ys"
    using out(2) assms(4) by (simp add: channel_or_empty_Some[OF assms(5)])
  moreover have "length ?ys = K * ?n"
    by (simp add: concat_replicate_length len)
  moreover have "\<forall>i < K * ?n. ?ys ! i = xs ! (i div ?n)"
    by (simp add: concat_replicate_nth len)
  ultimately show ?thesis using out(1)
    by (intro exI[of _ out] exI[of _ ?ys]) simp
qed

theorem Interpolate_non_sliding_witness:
  "rectangular \<lparr>sampling_frequency = None, channels = [''ch''], fdata = [''ch'' \<mapsto> [4, 9, 6 :: int] ]\<rparr> 3 \<and>
   (\<exists>out. Interpolate_process \<lparr>ip_window_size = 2, ip_sliding_window = False, ip_step_size = 0\<rparr>
       [''main'' \<mapsto> \<lparr>sampling_frequency = None, channels = [''ch''], fdata = [''ch'' \<mapsto> [4, 9, 6 :: int] ]\<rparr>]
       = Inr [''main'' \<mapsto> out] \<and>
      fdata out ''ch'' = Some [4, 4, 9, 9, 6, 6])"
proof -
  let ?main = "\<lparr>sampling_frequency = None, channels = [''ch''], fdata = [''ch'' \<mapsto> [4, 9, 6 :: int] ]\<rparr>"
  let ?node = "\<lparr>ip_window_size = 2, ip_sliding_window = False, ip_step_size = 0\<rparr>"
  have r: "rectangular ?main 3" by (simp add: rectangular_def)
  have n: "replicate 2 x = [x, x]" for x :: int
    by (simp add: eval_nat_numeral)
  from Interpolate_non_sliding[of "[''main'' \<mapsto> ?main]" ?main 3 ?node "''ch''" "[4, 9, 6]", OF _ r]
  show ?thesis using r by (simp add: n) blast
qed

subsection \<open>Sliding-window segmenter\<close>

text \<open>
  Claim C1.  For a node with \<open>1 \<le> step_size < window_size\<close> (every node that passed
  validation) and a rectangular input of \<open>n\<close> samples per channel, \<^verbatim>\<open>segment_data\<close> returns.
  The loop runs \<open>K\<close> rounds, where \<open>K\<close> is the first round whose index \<open>K * step_size\<close> fails the
  strict test \<open>index + window_size < n\<close>; round \<open>k\<close> emits the full slice
  \<open>[k * step_size, k * step_size + window_size)\<close>; the tail branch then emits one more epoch,
  and when \<open>n - K * step_size = window_size\<close> that epoch is the last \<open>window_size\<close> samples,
  unfilled.  On \<open>[1, 2, 3, 4, 5]\<close> with window 3, step 2 and zero filling (the witness) the
  epochs are \<open>[1, 2, 3]\<close> and \<open>[3, 4, 5]\<close>.
\<close>

theorem segment_data_loop_boundary:
  fixes data :: "'a::zero framework_data"
  assumes "rectangular data n"
    and "c \<in> set (channels data)" and "fdata data c = Some xs"
    and "1 \<le> seg_step_size node" and "seg_step_size node < seg_window_size node"
  shows "\<exists>out K epochs tail.
           segment_data node data = Some (Inr out) \<and>
           (\<forall>k<K. int k * seg_step_size node + seg_window_size node < int n) \<and>
           \<not> (int K * seg_step_size node + seg_window_size node < int n) \<and>
           fdata out c = (if n = 0 then None else Some (epochs @ [tail])) \<and>
           epochs = map (\<lambda>k. take (nat (seg_window_size node)) (drop (k * nat (seg_step_size node)) xs)) [0..<K] \<and>
           (\<forall>e\<in>set epochs. length e = nat (seg_window_size node)) \<and>
           (int n - int K * seg_step_size node = seg_window_size node \<longrightarrow>
              tail = drop (K * nat (seg_step_size node)) xs \<and> length tail = nat (seg_window_size node))"
proof -
  let ?ws = "seg_window_size node" and ?step = "seg_step_size node"
  let ?K = "loop_rounds node n"
  let ?epochs = "map (\<lambda>k. take (nat ?ws) (drop (k * nat ?step) xs)) [0..<?K]"
  let ?tail = "drop (?K * nat ?step) xs @ filling node xs (int n - int ?K * ?step)"
  have step: "0 < ?step" using assms(4) by simp
  have len: "length xs = n" using assms(1,2,3) by (auto elim: rectangular_lookup)
  from segment_data_result[OF assms(1,2,3) step assms(5)]
  obtain out where out: "segment_data node data = Some (Inr out)"
    "fdata out c = (if n = 0 then None else Some (?epochs @ [?tail]))"
    by blast
  have inside: "\<forall>k<?K. int k * ?step + ?ws < int n"
    and stop: "\<not> (int ?K * ?step + ?ws < int n)"
    using loop_rounds_props(2,3)[OF step] by blast+
  have full: "\<forall>e\<in>set ?epochs. length e = nat ?ws"
  proof
    fix e assume "e \<in> set ?epochs"
    then obtain k where k: "k < ?K" "e = take (nat ?ws) (drop (k * nat ?step) xs)" by auto
    from inside k(1) have "int k * ?step + ?ws < int n" by blast
    then have "int (k * nat ?step) + int (nat ?ws) < int n"
      using step assms(5) by simp
    then have "k * nat ?step + nat ?ws < n" by linarith
    then show "length e = nat ?ws" using k(2) len by simp
  qed
  have last_window: "?tail = drop (?K * nat ?step) xs \<and> length ?tail = nat ?ws"
    if r: "int n - int ?K * ?step = ?ws"
  proof -
    have "filling node xs (int n - int ?K * ?step) = []" using r by (simp add: filling_none)
    moreover have "length (drop (?K * nat ?step) xs) = nat ?ws"
    proof -
      have e: "int (?K * nat ?step) = int ?K * ?step" using step by simp
      have w: "int (nat ?ws) = ?ws" using step assms(5) by simp
      have "int (?K * nat ?step + nat ?ws) = int n"
        unfolding of_nat_add e w using r by simp
      then have "?K * nat ?step + nat ?ws = n" by (simp only: of_nat_eq_iff)
      then show ?thesis using len by auto
    qed
    ultimately show ?thesis by simp
  qed
  show ?thesis
    using out inside stop full last_window
    by (intro exI[of _ out] exI[of _ ?K] exI[of _ ?epochs] exI[of _ ?tail]) blast
qed

theorem segment_data_loop_boundary_witness:
  "rectangular \<lparr>sampling_frequency = Some 250, channels = [''ch''],
                 fdata = [''ch'' \<mapsto> [1, 2, 3, 4, 5 :: int] ]\<rparr> 5 \<and>
   (\<exists>out. segment_data \<lparr>seg_window_size = 3, seg_filling_value = ''zero'', seg_step_size = 2\<rparr>
             \<lparr>sampling_frequency = Some 250, channels = [''ch''],
                fdata = [''ch'' \<mapsto> [1, 2, 3, 4, 5 :: int] ]\<rparr> = Some (Inr out) \<and>
          fdata out ''ch'' = Some [ [1, 2, 3], [3, 4, 5] ])"
proof -
  let ?data = "\<lparr>sampling_frequency = Some 250, channels = [''ch''],
                 fdata = [''ch'' \<mapsto> [1, 2, 3, 4, 5 :: int] ]\<rparr>"
  let ?node = "\<lparr>seg_window_size = 3, seg_filling_value = ''zero'', seg_step_size = 2\<rparr>"
  have r: "rectangular ?data 5" by (simp add: rectangular_def)
  from segment_data_loop_boundary[of ?data 5 "''ch''" "[1, 2, 3, 4, 5]" ?node, OF r]
  obtain out K epochs tail where run: "segment_data ?node ?data = Some (Inr out)"
    and inside: "\<forall>k<K. int k * 2 + 3 < (5::int)"
    and stop: "\<not> (int K * 2 + 3 < (5::int))"
    and out: "fdata out ''ch'' = Some (epochs @ [tail])"
    and epochs: "epochs = map (\<lambda>k. take 3 (drop (k * 2) [1, 2, 3, 4, 5 :: int])) [0..<K]"
    and tail: "5 - int K * 2 = (3::int) \<longrightarrow> tail = drop (K * 2) [1, 2, 3, 4, 5 :: int]"
    by auto
  have "K = 1"
  proof -
    have "1 \<le> K" using stop by (cases K) auto
    moreover have "\<not> 1 < K" using inside by auto
    ultimately show ?thesis by simp
  qed
  then have "epochs = [ [1, 2, 3] ]" and "tail = [3, 4, 5]"
    using epochs tail by (simp_all add: eval_nat_numeral)
  then show ?thesis using r run out by simp
qed

text \<open>
  Claim C4.  For a validated node (\<open>1 \<le> step_size < window_size\<close>, filling value \<^verbatim>\<open>zero\<close> or
  \<^verbatim>\<open>latest\<close>) on a rectangular input of \<open>n\<close> samples per channel, let \<open>K\<close> be the number of
  rounds of the loop and \<open>remaining = n - K * step_size\<close>.  Then \<open>0 \<le> remaining \<le> window_size\<close>;
  when \<open>remaining = 0\<close> no final epoch is emitted; otherwise the final epoch is the \<open>remaining\<close>
  samples from the final index on, followed by a filling of length
  \<open>window_size - remaining\<close>, which is empty exactly when \<open>remaining = window_size\<close>, all zeros
  under \<^verbatim>\<open>zero\<close> and the channel's last sample repeated under \<^verbatim>\<open>latest\<close>.
\<close>

theorem segment_data_filling:
  fixes data :: "'a::zero framework_data"
  assumes "rectangular data n"
    and "c \<in> set (channels data)" and "fdata data c = Some xs"
    and "1 \<le> seg_step_size node" and "seg_step_size node < seg_window_size node"
    and "seg_filling_value node = ''zero'' \<or> seg_filling_value node = ''latest''"
  shows "\<exists>out K remaining.
           segment_data node data = Some (Inr out) \<and>
           (\<forall>k<K. int k * seg_step_size node + seg_window_size node < int n) \<and>
           \<not> (int K * seg_step_size node + seg_window_size node < int n) \<and>
           remaining = int n - int K * seg_step_size node \<and>
           0 \<le> remaining \<and> remaining \<le> seg_window_size node \<and>
           (remaining = 0 \<longrightarrow> fdata out c = None) \<and>
           (remaining \<noteq> 0 \<longrightarrow>
              (\<exists>epochs fill.
                 fdata out c = Some (epochs @ [drop (K * nat (seg_step_size node)) xs @ fill]) \<and>
                 length epochs = K \<and>
                 length (drop (K * nat (seg_step_size node)) xs) = nat remaining \<and>
                 length fill = nat (seg_window_size node - remaining) \<and>
                 (fill \<noteq> [] \<longleftrightarrow> remaining \<noteq> seg_window_size node) \<and>
                 (seg_filling_value node = ''zero'' \<longrightarrow>
                    fill = replicate (nat (seg_window_size node - remaining)) 0) \<and>
                 (seg_filling_value node = ''latest'' \<longrightarrow>
                    fill = replicate (nat (seg_window_size node - remaining)) (last xs))))"
proof -
  let ?ws = "seg_window_size node" and ?step = "seg_step_size node"
  let ?K = "loop_rounds node n"
  let ?remaining = "int n - int ?K * ?step"
  let ?epochs = "map (\<lambda>k. take (nat ?ws) (drop (k * nat ?step) xs)) [0..<?K]"
  let ?fill = "filling node xs ?remaining"
  have step: "0 < ?step" using assms(4) by simp
  have len: "length xs = n" using assms(1,2,3) by (auto elim: rectangular_lookup)
  from segment_data_result[OF assms(1,2,3) step assms(5)]
  obtain out where out: "segment_data node data = Some (Inr out)"
    "fdata out c = (if n = 0 then None
                    else Some (?epochs @ [drop (?K * nat ?step) xs @ ?fill]))"
    by blast
  have inside: "\<forall>k<?K. int k * ?step + ?ws < int n"
    and stop: "\<not> (int ?K * ?step + ?ws < int n)"
    using loop_rounds_props(2,3)[OF step] by blast+
  have upper: "?remaining \<le> ?ws" using stop by simp
  have lower: "0 \<le> ?remaining" and zero: "?remaining = 0 \<longleftrightarrow> n = 0"
  proof -
    show "0 \<le> ?remaining"
    proof (cases "n = 0")
      case True
      then show ?thesis using loop_rounds_empty[OF step assms(5)] by simp
    next
      case False
      then show ?thesis using loop_rounds_below[OF step assms(5), of n] by simp
    qed
    show "?remaining = 0 \<longleftrightarrow> n = 0"
    proof (cases "n = 0")
      case True
      then show ?thesis using loop_rounds_empty[OF step assms(5)] by simp
    next
      case False
      then show ?thesis using loop_rounds_below[OF step assms(5), of n] by simp
    qed
  qed
  have none: "?remaining = 0 \<longrightarrow> fdata out c = None" using out(2) zero by simp
  have e: "int (?K * nat ?step) = int ?K * ?step" using step by simp
  have rest: "length (drop (?K * nat ?step) xs) = nat ?remaining"
  proof -
    have "int (?K * nat ?step) \<le> int n" unfolding e using lower by simp
    then have "?K * nat ?step \<le> n" by (simp only: of_nat_le_iff)
    then have "int (n - ?K * nat ?step) = int n - int (?K * nat ?step)"
      by (rule of_nat_diff)
    then have "nat ?remaining = n - ?K * nat ?step" unfolding e by linarith
    then show ?thesis using len by simp
  qed
  have flen: "length ?fill = nat (?ws - ?remaining)"
    using assms(6) by (rule filling_length)
  have fne: "?fill \<noteq> [] \<longleftrightarrow> ?remaining \<noteq> ?ws"
  proof -
    have "?fill \<noteq> [] \<longleftrightarrow> 0 < length ?fill" by simp
    also have "\<dots> \<longleftrightarrow> ?remaining \<noteq> ?ws" unfolding flen using upper by auto
    finally show ?thesis .
  qed
  have fz: "seg_filling_value node = ''zero'' \<longrightarrow> ?fill = replicate (nat (?ws - ?remaining)) 0"
    and fl: "seg_filling_value node = ''latest'' \<longrightarrow>
               ?fill = replicate (nat (?ws - ?remaining)) (last xs)"
    by (simp_all add: filling_def)
  have some: "?remaining \<noteq> 0 \<longrightarrow>
      (\<exists>epochs fill.
         fdata out c = Some (epochs @ [drop (?K * nat ?step) xs @ fill]) \<and>
         length epochs = ?K \<and>
         length (drop (?K * nat ?step) xs) = nat ?remaining \<and>
         length fill = nat (?ws - ?remaining) \<and>
         (fill \<noteq> [] \<longleftrightarrow> ?remaining \<noteq> ?ws) \<and>
         (seg_filling_value node = ''zero'' \<longrightarrow> fill = replicate (nat (?ws - ?remaining)) 0) \<and>
         (seg_filling_value node = ''latest'' \<longrightarrow>
            fill = replicate (nat (?ws - ?remaining)) (last xs)))"
  proof
    assume "?remaining \<noteq> 0"
    then have "fdata out c = Some (?epochs @ [drop (?K * nat ?step) xs @ ?fill])"
      using out(2) zero by simp
    moreover have "length ?epochs = ?K" by simp
    ultimately show "\<exists>epochs fill.
         fdata out c = Some (epochs @ [drop (?K * nat ?step) xs @ fill]) \<and>
         length epochs = ?K \<and>
         length (drop (?K * nat ?step) xs) = nat ?remaining \<and>
         length fill = nat (?ws - ?remaining) \<and>
         (fill \<noteq> [] \<longleftrightarrow> ?remaining \<noteq> ?ws) \<and>
         (seg_filling_value node = ''zero'' \<longrightarrow> fill = replicate (nat (?ws - ?remaining)) 0) \<and>
         (seg_filling_value node = ''latest'' \<longrightarrow>
            fill = replicate (nat (?ws - ?remaining)) (last xs))"
      using rest flen fne fz fl by (intro exI[of _ ?epochs] exI[of _ ?fill]) blast
  qed
  show ?thesis
    using out(1) inside stop lower upper none some
    by (intro exI[of _ out] exI[of _ ?K] exI[of _ ?remaining]) blast
qed

theorem segment_data_filling_witness:
  "rectangular \<lparr>sampling_frequency = None, channels = [''ch''],
                 fdata = [''ch'' \<mapsto> [1, 2, 3, 4, 5 :: int] ]\<rparr> 5 \<and>
   (\<exists>out epochs. segment_data \<lparr>seg_window_size = 4, seg_filling_value = ''latest'', seg_step_size = 3\<rparr>
             \<lparr>sampling_frequency = None, channels = [''ch''],
                fdata = [''ch'' \<mapsto> [1, 2, 3, 4, 5 :: int] ]\<rparr> = Some (Inr out) \<and>
          fdata out ''ch'' = Some (epochs @ [ [4, 5, 5, 5] ]) \<and> length epochs = 1)"
proof -
  let ?data = "\<lparr>sampling_frequency = None, channels = [''ch''],
                 fdata = [''ch'' \<mapsto> [1, 2, 3, 4, 5 :: int] ]\<rparr>"
  let ?node = "\<lparr>seg_window_size = 4, seg_filling_value = ''latest'', seg_step_size = 3\<rparr>"
  have r: "rectangular ?data 5" by (simp add: rectangular_def)
  from segment_data_filling[of ?data 5 "''ch''" "[1, 2, 3, 4, 5]" ?node, OF r]
  obtain out K remaining where run: "segment_data ?node ?data = Some (Inr out)"
    and inside: "\<forall>k<K. int k * 3 + 4 < (5::int)"
    and stop: "\<not> (int K * 3 + 4 < (5::int))"
    and remaining: "remaining = 5 - int K * 3"
    and some: "remaining \<noteq> 0 \<longrightarrow>
              (\<exists>epochs fill.
                 fdata out ''ch'' = Some (epochs @ [drop (K * 3) [1, 2, 3, 4, 5 :: int] @ fill]) \<and>
                 length epochs = K \<and> fill = replicate (nat (4 - remaining)) 5)"
    by auto
  have K: "K = 1"
  proof -
    have "1 \<le> K" using stop by (cases K) auto
    moreover have "\<not> 1 < K" using inside by auto
    ultimately show ?thesis by simp
  qed
  then have "remaining = 2" using remaining by simp
  with some K obtain epochs where
    "fdata out ''ch'' = Some (epochs @ [drop 3 [1, 2, 3, 4, 5 :: int] @ replicate 2 5])"
    "length epochs = 1"
    by auto
  then have "fdata out ''ch'' = Some (epochs @ [ [4, 5, 5, 5] ])" "length epochs = 1"
    by (simp_all add: eval_nat_numeral)
  then show ?thesis using r run by blast
qed

text \<open>
  Claim C6, as the code has it.  For a node with \<open>1 \<le> step_size < window_size\<close> on a
  rectangular input that is not empty, epoch \<open>k\<close> of a channel starts at sample
  \<open>k * step_size\<close>: the loop epochs start at \<open>0, step_size, 2 * step_size, \<dots>\<close> and the tail epoch
  starts at the final index, beyond all of them.  So no window is emitted twice: on a channel
  whose samples are pairwise different the epochs are pairwise different, and the tail epoch
  is not among the loop-emitted ones.
\<close>

theorem segment_data_every_window_once:
  fixes data :: "'a::zero framework_data"
  assumes "rectangular data n" and "0 < n"
    and "c \<in> set (channels data)" and "fdata data c = Some xs"
    and "1 \<le> seg_step_size node" and "seg_step_size node < seg_window_size node"
    and "distinct xs"
  shows "\<exists>out epochs. segment_data node data = Some (Inr out) \<and>
           fdata out c = Some epochs \<and> epochs \<noteq> [] \<and> distinct epochs \<and>
           (\<forall>k<length epochs. hd (epochs ! k) = xs ! (k * nat (seg_step_size node))) \<and>
           last epochs \<notin> set (butlast epochs)"
proof -
  have step: "0 < seg_step_size node" using assms(5) by simp
  from segment_data_epochs_distinct[OF assms(1,3,4) step assms(6,7)] assms(2)
  obtain out epochs where e: "segment_data node data = Some (Inr out)"
    "fdata out c = Some epochs" "distinct epochs" "length epochs = Suc (loop_rounds node n)"
    "\<forall>k<length epochs. hd (epochs ! k) = xs ! (k * nat (seg_step_size node))"
    by auto
  from e(4) have ne: "epochs \<noteq> []" by auto
  with e(3) have "last epochs \<notin> set (butlast epochs)" by (rule distinct_last_not_earlier)
  with e ne show ?thesis by blast
qed

theorem segment_data_every_window_once_witness:
  "rectangular \<lparr>sampling_frequency = None, channels = [''ch''],
                 fdata = [''ch'' \<mapsto> [1, 2, 3, 4, 5 :: int] ]\<rparr> 5 \<and> distinct [1, 2, 3, 4, 5 :: int] \<and>
   (\<exists>out epochs. segment_data \<lparr>seg_window_size = 3, seg_filling_value = ''zero'', seg_step_size = 2\<rparr>
             \<lparr>sampling_frequency = None, channels = [''ch''],
                fdata = [''ch'' \<mapsto> [1, 2, 3, 4, 5 :: int] ]\<rparr> = Some (Inr out) \<and>
          fdata out ''ch'' = Some epochs \<and> epochs \<noteq> [] \<and> distinct epochs \<and>
          last epochs \<notin> set (butlast epochs))"
proof -
  let ?data = "\<lparr>sampling_frequency = None, channels = [''ch''],
                 fdata = [''ch'' \<mapsto> [1, 2, 3, 4, 5 :: int] ]\<rparr>"
  let ?node = "\<lparr>seg_window_size = 3, seg_filling_value = ''zero'', seg_step_size = 2\<rparr>"
  have r: "rectangular ?data 5" by (simp add: rectangular_def)
  have d: "distinct [1, 2, 3, 4, 5 :: int]" by simp
  from segment_data_every_window_once[of ?data 5 "''ch''" "[1, 2, 3, 4, 5]" ?node, OF r _ _ _ _ _ d]
  have "\<exists>out epochs. segment_data ?node ?data = Some (Inr out) \<and>
          fdata out ''ch'' = Some epochs \<and> epochs \<noteq> [] \<and> distinct epochs \<and>
          last epochs \<notin> set (butlast epochs)"
    by simp blast
  with r d show ?thesis by blast
qed

text \<open>
  Claim C6 as the spec states it says that for some channel length and some valid
  \<open>(window_size, step_size)\<close> the tail-branch epoch repeats a loop-emitted epoch.  On the channel
  \<open>[1, \<dots>, n]\<close>, whose samples are their own positions, an epoch is the slice it was cut
  from; no length, no \<open>1 \<le> step_size < window_size\<close> and no filling value make the last epoch
  equal to an earlier one.
\<close>

theorem segment_data_double_emission_refuted:
  "\<not> (\<exists>n ws step fv out epochs.
         1 \<le> step \<and> step < ws \<and>
         segment_data \<lparr>seg_window_size = ws, seg_filling_value = fv, seg_step_size = step\<rparr>
           \<lparr>sampling_frequency = None, channels = [''ch''],
              fdata = [''ch'' \<mapsto> map int [1..<Suc n] ]\<rparr> = Some (Inr out) \<and>
         fdata out ''ch'' = Some epochs \<and> epochs \<noteq> [] \<and>
         last epochs \<in> set (butlast epochs))"
proof
  assume "\<exists>n ws step fv out epochs.
         1 \<le> step \<and> step < ws \<and>
         segment_data \<lparr>seg_window_size = ws, seg_filling_value = fv, seg_step_size = step\<rparr>
           \<lparr>sampling_frequency = None, channels = [''ch''],
              fdata = [''ch'' \<mapsto> map int [1..<Suc n] ]\<rparr> = Some (Inr out) \<and>
         fdata out ''ch'' = Some epochs \<and> epochs \<noteq> [] \<and>
         last epochs \<in> set (butlast epochs)"
  then obtain n ws step fv out epochs where valid: "1 \<le> step" "step < ws"
    and run: "segment_data \<lparr>seg_window_size = ws, seg_filling_value = fv, seg_step_size = step\<rparr>
           \<lparr>sampling_frequency = None, channels = [''ch''],
              fdata = [''ch'' \<mapsto> map int [1..<Suc n] ]\<rparr> = Some (Inr out)"
    and out: "fdata out ''ch'' = Some epochs" "epochs \<noteq> []"
    and twice: "last epochs \<in> set (butlast epochs)"
    by blast
  let ?node = "\<lparr>seg_window_size = ws, seg_filling_value = fv, seg_step_size = step\<rparr>"
  let ?data = "\<lparr>sampling_frequency = None, channels = [''ch''],
              fdata = [''ch'' \<mapsto> map int [1..<Suc n] ]\<rparr>"
  have r: "rectangular ?data n" by (simp add: rectangular_def)
  have d: "distinct (map int [1..<Suc n])" by (simp add: distinct_map)
  from segment_data_epochs_distinct[of ?data n "''ch''" "map int [1..<Suc n]" ?node, OF r _ _ _ _ d]
    valid
  obtain out' where out': "segment_data ?node ?data = Some (Inr out')"
    "n = 0 \<longrightarrow> fdata out' ''ch'' = None"
    "0 < n \<longrightarrow> (\<exists>epochs. fdata out' ''ch'' = Some epochs \<and> distinct epochs)"
    by auto
  from run out'(1) have "out' = out" by simp
  with out'(2,3) out(1) have "distinct epochs" by (cases "n = 0") auto
  then have "last epochs \<notin> set (butlast epochs)"
    using out(2) by (rule distinct_last_not_earlier)
  with twice show False by contradiction
qed

subsection \<open>Interpolate, sliding mode\<close>

text \<open>
  Claim C2.  In sliding mode, with \<open>0 \<le> step_size \<le> window_size\<close> (validation admits
  \<open>1 < step_size < window_size\<close>), on a rectangular input whose channels hold \<open>W \<ge> 1\<close> epoch
  values, \<^verbatim>\<open>Interpolate._process\<close> returns, and every channel of its output has length
  \<open>window_size + (W - 1) * step_size\<close>.  Epoch \<open>w\<close> feeds the slots
  \<open>w * step_size, \<dots>, w * step_size + window_size - 1\<close>; every slot is fed by at least one
  epoch and resolves to the maximum of the values of the epochs feeding it: to the value
  itself when a single epoch feeds it, to the larger of the two when two epochs do.
\<close>

theorem Interpolate_sliding:
  fixes main :: "'a::linorder framework_data"
  assumes "data ''main'' = Some main" and "rectangular main W" and "1 \<le> W"
    and "ip_sliding_window node"
    and "0 \<le> ip_step_size node" and "ip_step_size node \<le> ip_window_size node"
    and "c \<in> set (channels main)" and "fdata main c = Some xs"
  shows "\<exists>out ys. Interpolate_process node data = Inr [''main'' \<mapsto> out] \<and>
           fdata out c = Some ys \<and>
           int (length ys) = ip_window_size node + (int W - 1) * ip_step_size node \<and>
           (\<forall>j<length ys. \<forall>E.
              E = {w. w < W \<and> int w * ip_step_size node \<le> int j \<and>
                      int j < int w * ip_step_size node + ip_window_size node} \<longrightarrow>
              E \<noteq> {} \<and> ys ! j = Max ((!) xs ` E) \<and>
              (\<forall>w. E = {w} \<longrightarrow> ys ! j = xs ! w) \<and>
              (\<forall>w1 w2. E = {w1, w2} \<longrightarrow> ys ! j = max (xs ! w1) (xs ! w2)))"
proof -
  obtain n s where ws: "ip_window_size node = int n" and step: "ip_step_size node = int s"
    using assms(5,6) by (metis nonneg_int_cases order_trans)
  have sn: "s \<le> n" using assms(6) ws step by simp
  let ?F = "\<lambda>c. map (\<lambda>j. Max (set (candidates n s (channel_or_empty main c) W j)))
                   [0..<n + (W - 1) * s]"
  have len: "length xs = W" using assms(2,7,8) by (auto elim: rectangular_lookup)
  have cxs: "channel_or_empty main c = xs" using assms(8) by (rule channel_or_empty_Some)
  have stepc: "\<exists>p'. (if ip_sliding_window node
             then interpolate_sliding_channel node main (get_data_count main)
                    (ip_window_size node - ip_step_size node)
             else interpolate_channel node main) c' p = Inr p' \<and>
            sampling_frequency p' = sampling_frequency p \<and>
            (False \<longrightarrow> has_channel p' c') \<and>
            (\<forall>c''. channel_or_empty p' c'' =
               (if c'' = c' then channel_or_empty p c' @ ?F c' else channel_or_empty p c'')) \<and>
            (\<forall>c''. has_channel p c'' \<longrightarrow> has_channel p' c'')"
    if c': "c' \<in> set (channels main)" for c' and p :: "'a framework_data"
  proof -
    from assms(2) c' obtain zs where "fdata main c' = Some zs" "length zs = W"
      by (auto elim: rectangular_lookup)
    then have zs: "fdata main c' = Some (channel_or_empty main c')"
      "length (channel_or_empty main c') = W"
      by (simp_all add: channel_or_empty_Some)
    then have ne: "channel_or_empty main c' \<noteq> []" using assms(3) by auto
    have count: "get_data_count main = int W"
      using assms(2) c' by (rule rectangular_data_count)
    note interpolate_sliding_channel_ok[OF zs(1) ne ws step sn, of p, unfolded zs(2)]
    then show ?thesis unfolding count by (simp only: assms(4) if_True)
  qed
  from Interpolate_process_result[of data main node ?F, OF assms(1) rectangular_present[OF assms(2)] stepc]
  obtain out where out: "Interpolate_process node data = Inr [''main'' \<mapsto> out]"
    "\<forall>c\<in>set (channels main). fdata out c = Some (?F c)"
    by blast
  let ?ys = "map (\<lambda>j. Max (set (candidates n s xs W j))) [0..<n + (W - 1) * s]"
  have ys: "fdata out c = Some ?ys" using out(2) assms(7) by (simp add: cxs)
  have length: "int (length ?ys) = ip_window_size node + (int W - 1) * ip_step_size node"
    using assms(3) by (simp add: ws step of_nat_diff)
  have slots: "\<forall>j<length ?ys. \<forall>E.
              E = {w. w < W \<and> int w * ip_step_size node \<le> int j \<and>
                      int j < int w * ip_step_size node + ip_window_size node} \<longrightarrow>
              E \<noteq> {} \<and> ?ys ! j = Max ((!) xs ` E) \<and>
              (\<forall>w. E = {w} \<longrightarrow> ?ys ! j = xs ! w) \<and>
              (\<forall>w1 w2. E = {w1, w2} \<longrightarrow> ?ys ! j = max (xs ! w1) (xs ! w2))"
  proof (intro allI impI)
    fix j E
    assume j: "j < length ?ys"
      and E: "E = {w. w < W \<and> int w * ip_step_size node \<le> int j \<and>
                      int j < int w * ip_step_size node + ip_window_size node}"
    from j have j': "j < n + (W - 1) * s" by simp
    have E': "E = {w. w < W \<and> w * s \<le> j \<and> j < w * s + n}"
      unfolding E ws step by (rule covering_int)
    have set: "set (candidates n s xs W j) = (!) xs ` E"
      unfolding E' by (rule candidates_set)
    have "candidates n s xs W j \<noteq> []"
      using sn assms(3) j' by (rule candidates_nonempty)
    then have "(!) xs ` E \<noteq> {}" unfolding set[symmetric] by simp
    then have ne: "E \<noteq> {}" by auto
    have nth: "?ys ! j = Max ((!) xs ` E)" using j' by (simp add: set)
    have one: "?ys ! j = xs ! w" if "E = {w}" for w
      using nth that by simp
    have two: "?ys ! j = max (xs ! w1) (xs ! w2)" if "E = {w1, w2}" for w1 w2
      using nth that by (simp add: max.commute)
    show "E \<noteq> {} \<and> ?ys ! j = Max ((!) xs ` E) \<and>
              (\<forall>w. E = {w} \<longrightarrow> ?ys ! j = xs ! w) \<and>
              (\<forall>w1 w2. E = {w1, w2} \<longrightarrow> ?ys ! j = max (xs ! w1) (xs ! w2))"
      using ne nth one two by blast
  qed
  show ?thesis
    using out(1) ys length slots by (intro exI[of _ out] exI[of _ ?ys]) blast
qed

theorem Interpolate_sliding_witness:
  "rectangular \<lparr>sampling_frequency = None, channels = [''ch''], fdata = [''ch'' \<mapsto> [4, 9, 6 :: int] ]\<rparr> 3 \<and>
   (\<exists>out ys. Interpolate_process \<lparr>ip_window_size = 3, ip_sliding_window = True, ip_step_size = 2\<rparr>
       [''main'' \<mapsto> \<lparr>sampling_frequency = None, channels = [''ch''], fdata = [''ch'' \<mapsto> [4, 9, 6 :: int] ]\<rparr>]
       = Inr [''main'' \<mapsto> out] \<and>
      fdata out ''ch'' = Some ys \<and> length ys = 7 \<and> ys ! 0 = 4 \<and> ys ! 2 = 9 \<and> ys ! 4 = 9)"
proof -
  let ?main = "\<lparr>sampling_frequency = None, channels = [''ch''], fdata = [''ch'' \<mapsto> [4, 9, 6 :: int] ]\<rparr>"
  let ?node = "\<lparr>ip_window_size = 3, ip_sliding_window = True, ip_step_size = 2\<rparr>"
  have r: "rectangular ?main 3" by (simp add: rectangular_def)
  from Interpolate_sliding[of "[''main'' \<mapsto> ?main]" ?main 3 ?node "''ch''" "[4, 9, 6]", OF _ r]
  obtain out ys where run: "Interpolate_process ?node [''main'' \<mapsto> ?main] = Inr [''main'' \<mapsto> out]"
    and ys: "fdata out ''ch'' = Some ys"
    and len: "int (length ys) = 3 + (int 3 - 1) * 2"
    and slots: "\<forall>j<length ys. \<forall>E.
              E = {w. w < 3 \<and> int w * 2 \<le> int j \<and> int j < int w * 2 + 3} \<longrightarrow>
              E \<noteq> {} \<and> ys ! j = Max ((!) [4, 9, 6 :: int] ` E) \<and>
              (\<forall>w. E = {w} \<longrightarrow> ys ! j = [4, 9, 6 :: int] ! w) \<and>
              (\<forall>w1 w2. E = {w1, w2} \<longrightarrow> ys ! j = max ([4, 9, 6 :: int] ! w1) ([4, 9, 6 :: int] ! w2))"
    by auto
  have l: "length ys = 7" using len by simp
  have E0: "{w. w < 3 \<and> int w * 2 \<le> int 0 \<and> int 0 < int w * 2 + 3} = {0::nat}" by auto
  have E2: "{w. w < 3 \<and> int w * 2 \<le> int 2 \<and> int 2 < int w * 2 + 3} = {0::nat, 1}" by auto
  have E4: "{w. w < 3 \<and> int w * 2 \<le> int 4 \<and> int 4 < int w * 2 + 3} = {1::nat, 2}" by auto
  have "ys ! 0 = 4"
    using slots[rule_format, of 0, OF _ refl] l E0 by simp
  moreover have "ys ! 2 = 9"
    using slots[rule_format, of 2, OF _ refl] l E2 by simp
  moreover have "ys ! 4 = 9"
    using slots[rule_format, of 4, OF _ refl] l E4 by simp
  ultimately show ?thesis using r run ys l by blast
qed

subsection \<open>Sampling frequency of the outputs\<close>

text \<open>
  Claim C9.  Whatever the input, an output produced by \<^verbatim>\<open>Interpolate._process\<close> or by
  \<^verbatim>\<open>DataReplicate._process\<close> is the dictionary with the single port \<^verbatim>\<open>main\<close>, whose container has
  sampling frequency 1, and an output produced by \<^verbatim>\<open>segment_data\<close> has the sampling frequency
  of its input.  The three functions do produce an output on well-shaped inputs: Interpolate
  on a rectangular input (in sliding mode with at least one epoch and
  \<open>0 \<le> step_size \<le> window_size\<close>), DataReplicate when every listed channel is present (and not
  empty when the tail extension reads its last sample), the segmenter on a rectangular input
  with \<open>1 \<le> step_size < window_size\<close>.  The witness runs the three nodes on inputs of
  sampling frequency 250.
\<close>

theorem output_sampling_frequency:
  fixes data_i :: "'a::linorder ports" and data_r :: "'b ports" and data_s :: "'c::zero framework_data"
  shows "(\<forall>out. Interpolate_process node_i data_i = Inr out \<longrightarrow>
            (\<exists>p. out = [''main'' \<mapsto> p] \<and> sampling_frequency p = Some 1)) \<and>
         (\<forall>out. DataReplicate_process node_r data_r = Inr out \<longrightarrow>
            (\<exists>p. out = [''main'' \<mapsto> p] \<and> sampling_frequency p = Some 1)) \<and>
         (\<forall>out. segment_data node_s data_s = Some (Inr out) \<longrightarrow>
            sampling_frequency out = sampling_frequency data_s) \<and>
         (\<forall>main n. data_i ''main'' = Some main \<and> rectangular main n \<and>
            (ip_sliding_window node_i \<longrightarrow>
               1 \<le> n \<and> 0 \<le> ip_step_size node_i \<and> ip_step_size node_i \<le> ip_window_size node_i) \<longrightarrow>
            (\<exists>out. Interpolate_process node_i data_i = Inr out)) \<and>
         (\<forall>main. data_r ''main'' = Some main \<and> channels_present main \<and>
            (use_extra_data node_r \<and> 0 < extra_data node_r \<longrightarrow>
               (\<forall>c\<in>set (channels main). fdata main c \<noteq> Some [])) \<longrightarrow>
            (\<exists>out. DataReplicate_process node_r data_r = Inr out)) \<and>
         (\<forall>n. rectangular data_s n \<and> 1 \<le> seg_step_size node_s \<and>
            seg_step_size node_s < seg_window_size node_s \<longrightarrow>
            (\<exists>out. segment_data node_s data_s = Some (Inr out)))"
proof (intro conjI allI impI)
  fix out assume "Interpolate_process node_i data_i = Inr out"
  then show "\<exists>p. out = [''main'' \<mapsto> p] \<and> sampling_frequency p = Some 1"
    by (rule Interpolate_process_frequency)
next
  fix out assume "DataReplicate_process node_r data_r = Inr out"
  then show "\<exists>p. out = [''main'' \<mapsto> p] \<and> sampling_frequency p = Some 1"
    by (rule DataReplicate_process_frequency)
next
  fix out assume "segment_data node_s data_s = Some (Inr out)"
  then show "sampling_frequency out = sampling_frequency data_s"
    by (rule segment_data_frequency)
next
  fix main :: "'a framework_data" and n
  assume a: "data_i ''main'' = Some main \<and> rectangular main n \<and>
            (ip_sliding_window node_i \<longrightarrow>
               1 \<le> n \<and> 0 \<le> ip_step_size node_i \<and> ip_step_size node_i \<le> ip_window_size node_i)"
  then have "\<exists>out. Interpolate_process node_i data_i = Inr [''main'' \<mapsto> out] \<and>
               sampling_frequency out = Some 1"
    by (intro Interpolate_process_returns[of data_i main n node_i]) simp_all
  then show "\<exists>out. Interpolate_process node_i data_i = Inr out" by blast
next
  fix main :: "'b framework_data"
  assume a: "data_r ''main'' = Some main \<and> channels_present main \<and>
            (use_extra_data node_r \<and> 0 < extra_data node_r \<longrightarrow>
               (\<forall>c\<in>set (channels main). fdata main c \<noteq> Some []))"
  then have present: "has_channel main c" if "c \<in> set (channels main)" for c
    using that by (simp add: channels_present_def list_all_iff)
  have "use_extra_data node_r \<and> 0 < extra_data node_r \<longrightarrow>
          (\<forall>c\<in>set (channels main). channel_or_empty main c \<noteq> [])"
  proof (intro impI ballI)
    fix c assume e: "use_extra_data node_r \<and> 0 < extra_data node_r" and c: "c \<in> set (channels main)"
    from present[OF c] have "fdata main c = Some (channel_or_empty main c)"
      by (rule has_channel_fdata)
    moreover have "fdata main c \<noteq> Some []" using a e c by blast
    ultimately show "channel_or_empty main c \<noteq> []" by auto
  qed
  with DataReplicate_process_result[of data_r main node_r] a
  show "\<exists>out. DataReplicate_process node_r data_r = Inr out" by blast
next
  fix n
  assume a: "rectangular data_s n \<and> 1 \<le> seg_step_size node_s \<and>
            seg_step_size node_s < seg_window_size node_s"
  then have "\<exists>out. segment_data node_s data_s = Some (Inr out) \<and>
               sampling_frequency out = sampling_frequency data_s"
    by (intro segment_data_returns[of data_s n node_s]) simp_all
  then show "\<exists>out. segment_data node_s data_s = Some (Inr out)" by blast
qed

theorem output_sampling_frequency_witness:
  "(\<exists>p. Interpolate_process \<lparr>ip_window_size = 2, ip_sliding_window = False, ip_step_size = 0\<rparr>
          [''main'' \<mapsto> \<lparr>sampling_frequency = Some 250, channels = [''ch''],
                          fdata = [''ch'' \<mapsto> [4, 9, 6 :: int] ]\<rparr>] = Inr [''main'' \<mapsto> p] \<and>
        sampling_frequency p = Some 1) \<and>
   (\<exists>p. DataReplicate_process \<lparr>data_repetition_count = 3, use_extra_data = True, extra_data = 2\<rparr>
          [''main'' \<mapsto> \<lparr>sampling_frequency = Some 250, channels = [''ch''],
                          fdata = [''ch'' \<mapsto> [10, 20 :: int] ]\<rparr>] = Inr [''main'' \<mapsto> p] \<and>
        sampling_frequency p = Some 1) \<and>
   (\<exists>out. segment_data \<lparr>seg_window_size = 3, seg_filling_value = ''zero'', seg_step_size = 2\<rparr>
            \<lparr>sampling_frequency = Some 250, channels = [''ch''],
               fdata = [''ch'' \<mapsto> [1, 2, 3, 4, 5 :: int] ]\<rparr> = Some (Inr out) \<and>
          sampling_frequency out = Some 250)"
proof -
  let ?ni = "\<lparr>ip_window_size = 2, ip_sliding_window = False, ip_step_size = 0\<rparr>"
  let ?mi = "\<lparr>sampling_frequency = Some 250, channels = [''ch''],
               fdata = [''ch'' \<mapsto> [4, 9, 6 :: int] ]\<rparr>"
  let ?nr = "\<lparr>data_repetition_count = 3, use_extra_data = True, extra_data = 2\<rparr>"
  let ?mr = "\<lparr>sampling_frequency = Some 250, channels = [''ch''],
               fdata = [''ch'' \<mapsto> [10, 20 :: int] ]\<rparr>"
  let ?ns = "\<lparr>seg_window_size = 3, seg_filling_value = ''zero'', seg_step_size = 2\<rparr>"
  let ?ds = "\<lparr>sampling_frequency = Some 250, channels = [''ch''],
               fdata = [''ch'' \<mapsto> [1, 2, 3, 4, 5 :: int] ]\<rparr>"
  note inst = output_sampling_frequency[of ?ni "[''main'' \<mapsto> ?mi]" ?nr "[''main'' \<mapsto> ?mr]" ?ns ?ds]
  have ri: "rectangular ?mi 3" by (simp add: rectangular_def)
  have pr: "channels_present ?mr" by (simp add: channels_present_def has_channel_def)
  have rs: "rectangular ?ds 5" by (simp add: rectangular_def)
  have "\<exists>out. Interpolate_process ?ni [''main'' \<mapsto> ?mi] = Inr out"
    using inst ri by (elim conjE allE[of _ ?mi] allE[of _ "3::nat"]) simp
  then obtain oi where oi: "Interpolate_process ?ni [''main'' \<mapsto> ?mi] = Inr oi" ..
  with inst have i: "\<exists>p. oi = [''main'' \<mapsto> p] \<and> sampling_frequency p = Some 1" by blast
  have "\<exists>out. DataReplicate_process ?nr [''main'' \<mapsto> ?mr] = Inr out"
    using inst pr by (elim conjE allE[of _ ?mr]) simp
  then obtain or' where or': "DataReplicate_process ?nr [''main'' \<mapsto> ?mr] = Inr or'" ..
  with inst have r: "\<exists>p. or' = [''main'' \<mapsto> p] \<and> sampling_frequency p = Some 1" by blast
  have "\<exists>out. segment_data ?ns ?ds = Some (Inr out)"
    using inst rs by (elim conjE allE[of _ "5::nat"]) simp
  then obtain os where os: "segment_data ?ns ?ds = Some (Inr os)" ..
  with inst have "sampling_frequency os = sampling_frequency ?ds" by blast
  then have s: "sampling_frequency os = Some 250" by simp
  show ?thesis using oi i or' r os s by blast
qed

end
